theory Spec2Isabelle
  imports Complex_Main "HOL-Library.Word"
begin

unbundle bit_operations_syntax

section \<open>Pattern codec\<close>

text \<open>
  \<^verbatim>\<open>using Pattern = int;\<close> A pattern is a 32-bit machine integer holding one 2-bit
  field per letter position. The bitwise operators of the source act on the
  two's-complement representation, which is what \<open>32 word\<close> is.
\<close>

type_synonym Pattern = "32 word"

text \<open>
  \<^verbatim>\<open>using Color = enum { Gray = 0, Yellow = 1, Green = 2 };\<close> The enumeration has no
  fixed underlying type, so its values are those of a 2-bit field: besides the three
  named colours, \<^verbatim>\<open>static_cast<Color>(3)\<close> is a value of the type. \<open>GetColor\<close>
  yields it when both bits of a field are set.
\<close>

datatype Color = Gray | Yellow | Green | Unnamed3

fun color_code :: "Color \<Rightarrow> Pattern" where
  "color_code Gray = 0"
| "color_code Yellow = 1"
| "color_code Green = 2"
| "color_code Unnamed3 = 3"

definition to_Color :: "Pattern \<Rightarrow> Color" where
  "to_Color v = (if v = 0 then Gray else if v = 1 then Yellow
                 else if v = 2 then Green else Unnamed3)"

text \<open>
  The exceptions and failures of the program. \<open>InvalidArgument\<close> is the
  \<^verbatim>\<open>std::invalid_argument\<close> thrown by the codec; \<open>OutOfBounds\<close> stands for a read
  past the end of a \<^verbatim>\<open>std::string\<close> or \<^verbatim>\<open>std::vector\<close> (undefined behaviour in the
  source); \<open>AssertionFailed\<close> is a failing \<^verbatim>\<open>assert\<close>.
\<close>

datatype error = InvalidArgument | OutOfBounds | AssertionFailed

text \<open>
  \<^verbatim>\<open>static void SetColor(Pattern &p, int index, Color c)\<close>: the updated pattern is
  returned. \<^verbatim>\<open>static Color GetColor(Pattern &p, int index)\<close>. The masked value read by
  \<open>GetColor\<close> is non-negative, so the source's \<^verbatim>\<open>>>\<close> is a logical shift.
\<close>

definition SetColor :: "Pattern \<Rightarrow> int \<Rightarrow> Color \<Rightarrow> error + Pattern" where
  "SetColor p index c =
     (if index \<ge> 0 \<and> index \<le> 7 then
        let shift = nat (index * 2) in
        Inr ((p AND (NOT (push_bit shift 3))) OR (push_bit shift (color_code c)))
      else Inl InvalidArgument)"

definition GetColor :: "Pattern \<Rightarrow> int \<Rightarrow> error + Color" where
  "GetColor p index =
     (if index \<ge> 0 \<and> index \<le> 7 then
        let shift = nat (2 * index) in
        Inr (to_Color ((drop_bit shift (p AND (push_bit shift 3))) AND 3))
      else Inl InvalidArgument)"

section \<open>Feedback simulator\<close>

text \<open>
  \<^verbatim>\<open>other[i]\<close> on a \<^verbatim>\<open>const std::string\<close>: the character at \<open>i\<close> below the size, the
  terminating null character at \<open>i = size()\<close>, undefined beyond.
\<close>

definition char_at :: "string \<Rightarrow> nat \<Rightarrow> error + char" where
  "char_at s i = (if i < length s then Inr (s ! i)
                  else if i = length s then Inr (CHR 0x00) else Inl OutOfBounds)"

text \<open>
  The index expression \<^verbatim>\<open>wordSize - 1 - i\<close>: \<open>wordSize\<close> is a \<^verbatim>\<open>size_t\<close> and
  \<open>i\<close> an \<^verbatim>\<open>int\<close>, so the difference is taken modulo \<open>2 ^ 64\<close> and then narrowed to
  the \<^verbatim>\<open>int\<close> parameter of the codec: the low 32 bits, read as two's complement.
\<close>

definition position :: "nat \<Rightarrow> nat \<Rightarrow> int" where
  "position wordSize i = sint (word_of_int (int wordSize - 1 - int i) :: 32 word)"

text \<open>
  A counted loop \<^verbatim>\<open>for (int i = 0; i < n; ++i) body\<close> over a state, where the body may
  throw: the indices are run in order and the first error ends the loop.
\<close>

fun for_loop :: "nat list \<Rightarrow> (nat \<Rightarrow> 's \<Rightarrow> error + 's) \<Rightarrow> 's \<Rightarrow> error + 's" where
  "for_loop [] body s = Inr s"
| "for_loop (i # is) body s =
     (case body i s of Inl e \<Rightarrow> Inl e | Inr s' \<Rightarrow> for_loop is body s')"

text \<open>
  \<^verbatim>\<open>unordered_map<char, int> freq\<close> is only ever accessed with \<^verbatim>\<open>operator[]\<close>, which
  inserts 0 for an absent key: a total function with default 0.
  \<^verbatim>\<open>for (auto &c : other) freq[c]++;\<close>
\<close>

definition count_letters :: "string \<Rightarrow> char \<Rightarrow> int" where
  "count_letters other = fold (\<lambda>c freq. freq(c := freq c + 1)) other (\<lambda>_. 0)"

text \<open>The body of the first pass (Green marking).\<close>

definition green_step ::
  "nat \<Rightarrow> string \<Rightarrow> string \<Rightarrow> nat \<Rightarrow> Pattern \<times> (char \<Rightarrow> int) \<Rightarrow> error + Pattern \<times> (char \<Rightarrow> int)" where
  "green_step wordSize guess other i st =
     (case st of (p, freq) \<Rightarrow>
        case char_at other i of
          Inl e \<Rightarrow> Inl e
        | Inr oc \<Rightarrow>
            if guess ! i = oc then
              (case SetColor p (position wordSize i) Green of
                 Inl e \<Rightarrow> Inl e
               | Inr p' \<Rightarrow> Inr (p', freq(guess ! i := freq (guess ! i) - 1)))
            else Inr (p, freq))"

text \<open>The body of the second pass (Yellow or Gray for what is not Green).\<close>

definition yellow_step ::
  "nat \<Rightarrow> string \<Rightarrow> nat \<Rightarrow> Pattern \<times> (char \<Rightarrow> int) \<Rightarrow> error + Pattern \<times> (char \<Rightarrow> int)" where
  "yellow_step wordSize guess i st =
     (case st of (p, freq) \<Rightarrow>
        let c = guess ! i in
        case GetColor p (position wordSize i) of
          Inl e \<Rightarrow> Inl e
        | Inr col \<Rightarrow>
            if col = Green then Inr (p, freq)
            else if freq c \<noteq> 0 then
              (case SetColor p (position wordSize i) Yellow of
                 Inl e \<Rightarrow> Inl e
               | Inr p' \<Rightarrow> Inr (p', freq(c := freq c - 1)))
            else
              (case SetColor p (position wordSize i) Gray of
                 Inl e \<Rightarrow> Inl e
               | Inr p' \<Rightarrow> Inr (p', freq)))"

text \<open>
  \<^verbatim>\<open>static Pattern GeneratePattern(const string &guess, const string &other,
  const size_t wordSize)\<close>
\<close>

definition GeneratePattern :: "string \<Rightarrow> string \<Rightarrow> nat \<Rightarrow> error + Pattern" where
  "GeneratePattern guess other wordSize =
     (case for_loop [0..<length guess] (green_step wordSize guess other)
             (0, count_letters other) of
        Inl e \<Rightarrow> Inl e
      | Inr st \<Rightarrow>
          (case for_loop [0..<length guess] (yellow_step wordSize guess) st of
             Inl e \<Rightarrow> Inl e
           | Inr (p, freq) \<Rightarrow> Inr p))"


section \<open>Candidate filter\<close>

text \<open>
  \<^verbatim>\<open>copy_if(begin, end, back_inserter(result), pred)\<close>: the elements are visited in
  order and the ones satisfying the predicate are appended to the result. An exception
  thrown by the predicate leaves the algorithm.
\<close>

fun copy_if :: "'a list \<Rightarrow> 'a list \<Rightarrow> ('a \<Rightarrow> error + bool) \<Rightarrow> error + 'a list" where
  "copy_if [] result pred = Inr result"
| "copy_if (w # ws) result pred =
     (case pred w of
        Inl e \<Rightarrow> Inl e
      | Inr b \<Rightarrow> copy_if ws (if b then result @ [w] else result) pred)"

text \<open>
  \<^verbatim>\<open>auto FilterAllWordsBestOnPattern(const Pattern &p, const string &guess,
  const vector<string> &validWords, const size_t wordSize) -> vector<string>\<close>.
  The candidate list is taken by const reference and a fresh vector is returned.
\<close>

definition FilterAllWordsBestOnPattern ::
  "Pattern \<Rightarrow> string \<Rightarrow> string list \<Rightarrow> nat \<Rightarrow> error + string list" where
  "FilterAllWordsBestOnPattern p guess validWords wordSize =
     copy_if validWords []
       (\<lambda>w. case GeneratePattern guess w wordSize of
               Inl e \<Rightarrow> Inl e
             | Inr q \<Rightarrow> Inr (q = p))"

section \<open>Entropy ranker\<close>

text \<open>
  The source computes entropies in \<^verbatim>\<open>double\<close>. The model computes them in the real
  numbers: the rounding of the division, the logarithm, the products and the sum is
  not represented. In the three distributions of the entropy tests every probability
  is 1, 1/2 or 1/4, so that every intermediate value is a dyadic fraction.

  \<^verbatim>\<open>struct CompareDouble\<close>: \<^verbatim>\<open>return (a - b) < -EPSILON;\<close> with
  \<^verbatim>\<open>constexpr double EPSILON = 1e-9\<close>. The constant is the double nearest to \<open>1e-9\<close>,
  which is \<open>4835703278458517 / 2 ^ 82\<close>. The difference of the two doubles is rounded
  to the nearest double, ties to even, before it is compared. Around \<open>EPSILON\<close> the
  doubles are \<open>2 ^ -82\<close> apart and the significand of \<open>EPSILON\<close> is odd: a real \<open>x\<close>
  rounds to a double less than \<open>-EPSILON\<close> exactly when \<open>x\<close> is at most
  \<open>-(EPSILON + 2 ^ -83)\<close>, the midpoint between \<open>-EPSILON\<close> and the next double
  below it, the tie going to that even neighbour. \<open>rounded_less_neg_EPSILON x\<close> is
  that test: the rounded \<open>x\<close> is less than \<open>-EPSILON\<close>.
\<close>

definition EPSILON :: real where
  "EPSILON = 4835703278458517 / 2 ^ 82"

definition rounded_less_neg_EPSILON :: "real \<Rightarrow> bool" where
  "rounded_less_neg_EPSILON x \<longleftrightarrow> x \<le> - (EPSILON + 1 / 2 ^ 83)"

definition CompareDouble :: "real \<Rightarrow> real \<Rightarrow> bool" where
  "CompareDouble a b \<longleftrightarrow> rounded_less_neg_EPSILON (a - b)"

text \<open>
  \<^verbatim>\<open>unordered_map<Pattern, int>\<close> as an association list with one entry per key; the
  order of the entries is the order in which the map is iterated, which the source
  leaves to the container. \<open>increment\<close> is \<^verbatim>\<open>pCounters[k]++\<close>.
\<close>

fun increment :: "Pattern \<Rightarrow> (Pattern \<times> int) list \<Rightarrow> (Pattern \<times> int) list" where
  "increment k [] = [(k, 1)]"
| "increment k ((k', c) # m) =
     (if k = k' then (k', c + 1) # m else (k', c) # increment k m)"

text \<open>
  \<^verbatim>\<open>static double CalculateEntropy(const unordered_map<Pattern, int> &counts)\<close>.
  The division is by \<open>sumCounts\<close> as in the source. A zero divisor gives 0 in HOL and
  a NaN or an infinity in the source; for a map whose counts are positive (all the
  program builds) the divisor is positive whenever the second loop runs. The sum is an
  unbounded integer; the \<^verbatim>\<open>int\<close> of the source overflows from \<open>2 ^ 31\<close>.
\<close>

definition CalculateEntropy :: "(Pattern \<times> int) list \<Rightarrow> real" where
  "CalculateEntropy counts =
     (let sumCounts = fold (\<lambda>p s. s + snd p) counts (0::int);
          entropy = fold (\<lambda>c entropy.
                      let p = real_of_int (snd c) / real_of_int sumCounts in
                      if p > 0 then entropy + p * log 2 p else entropy) counts (0::real)
      in - entropy)"

text \<open>
  \<^verbatim>\<open>EntropiesMap<CompareDouble>\<close> is a \<^verbatim>\<open>std::map\<close> from entropy to the words having it:
  an association list kept in ascending key order. \<open>push_entropy k w\<close> is
  \<^verbatim>\<open>entropies[k].push_back(w)\<close>: \<^verbatim>\<open>operator[]\<close> finds the first entry whose key is
  not less than \<open>k\<close>; if there is none, or \<open>k\<close> is less than that key, a new entry
  is inserted there; otherwise the keys are equivalent and the entry found is used.
  The scan of the ordered list finds the entry that the search of the tree finds, since
  whether a key is less than \<open>k\<close> is monotone in the key.
\<close>

fun push_entropy ::
  "real \<Rightarrow> string \<Rightarrow> (real \<times> string list) list \<Rightarrow> (real \<times> string list) list" where
  "push_entropy k w [] = [(k, [w])]"
| "push_entropy k w ((k', ws) # m) =
     (if CompareDouble k' k then (k', ws) # push_entropy k w m
      else if CompareDouble k k' then (k, [w]) # (k', ws) # m
      else (k', ws @ [w]) # m)"

text \<open>
  The inner loop of \<open>CalculateEntropies\<close>: the pattern counters of word \<open>i\<close> against
  every other word.
\<close>

definition count_patterns :: "string list \<Rightarrow> nat \<Rightarrow> nat \<Rightarrow> error + (Pattern \<times> int) list" where
  "count_patterns words wordSize i =
     for_loop [0..<length words]
       (\<lambda>j pCounters.
          if i \<noteq> j then
            (case GeneratePattern (words ! i) (words ! j) wordSize of
               Inl e \<Rightarrow> Inl e
             | Inr q \<Rightarrow> Inr (increment q pCounters))
          else Inr pCounters) []"

text \<open>
  \<^verbatim>\<open>static void CalculateEntropies(const vector<string> &words, const size_t wordSize,
  EntropiesMap<CompareDouble> &entropies)\<close>: the updated table is returned.
\<close>

definition CalculateEntropies ::
  "string list \<Rightarrow> nat \<Rightarrow> (real \<times> string list) list \<Rightarrow> error + (real \<times> string list) list" where
  "CalculateEntropies words wordSize entropies =
     for_loop [0..<length words]
       (\<lambda>i entropies.
          case count_patterns words wordSize i of
            Inl e \<Rightarrow> Inl e
          | Inr pCounters \<Rightarrow> Inr (push_entropy (CalculateEntropy pCounters) (words ! i) entropies))
       entropies"

text \<open>
  \<^verbatim>\<open>auto Wordle::GetNextBestGuess(const vector<string> &validWords) -> string\<close>, with the
  member \<open>wordSize\<close> as a parameter. The table is empty only for an empty candidate
  list, where the assertion fails.
\<close>

definition GetNextBestGuess :: "nat \<Rightarrow> string list \<Rightarrow> error + string" where
  "GetNextBestGuess wordSize validWords =
     (case CalculateEntropies validWords wordSize [] of
        Inl e \<Rightarrow> Inl e
      | Inr entropies \<Rightarrow>
          if entropies = [] then
            (if length validWords > 1 then Inr (validWords ! 0) else Inl AssertionFailed)
          else
            (case snd (last entropies) of
               [] \<Rightarrow> Inl OutOfBounds
             | w # _ \<Rightarrow> Inr w))"

section \<open>Game driver: self-play\<close>

text \<open>
  \<^verbatim>\<open>for (int i = 0; i < wordSize; ++i) allGreen |= (2 << (i * 2));\<close>
\<close>

definition allGreen :: "nat \<Rightarrow> Pattern" where
  "allGreen wordSize = fold (\<lambda>i ag. ag OR (push_bit (i * 2) 2)) [0..<wordSize] 0"

text \<open>
  One executed iteration of the loop of \<open>PlayRandomGame\<close>, kept as a record of the run:
  the candidate list at the start of the round, the guess made and the feedback
  computed for it.
\<close>

record round =
  candidates :: "string list"
  guessed :: string
  feedback :: Pattern

text \<open>
  The loop of \<^verbatim>\<open>Wordle::PlayRandomGame\<close>:
  \<^verbatim>\<open>for (int guesses = 0; guesses < wordSize + 1 && guess != wordToGuess; ++guesses)\<close>.
  The result is the returned \<^verbatim>\<open>optional<string>\<close> together with the rounds executed, in
  order.
\<close>

function game_loop ::
  "nat \<Rightarrow> string \<Rightarrow> nat \<Rightarrow> string \<Rightarrow> string list \<Rightarrow> error + string option \<times> round list" where
  "game_loop wordSize wordToGuess guesses guess validWords =
     (if guesses < wordSize + 1 \<and> guess \<noteq> wordToGuess then
        (case GetNextBestGuess wordSize validWords of
           Inl e \<Rightarrow> Inl e
         | Inr guess' \<Rightarrow>
             (case GeneratePattern guess' wordToGuess wordSize of
                Inl e \<Rightarrow> Inl e
              | Inr p \<Rightarrow>
                  let this = \<lparr>candidates = validWords, guessed = guess', feedback = p\<rparr> in
                  if p \<noteq> allGreen wordSize then
                    (case FilterAllWordsBestOnPattern p guess' validWords wordSize of
                       Inl e \<Rightarrow> Inl e
                     | Inr validWords' \<Rightarrow>
                         (case game_loop wordSize wordToGuess (guesses + 1) guess' validWords' of
                            Inl e \<Rightarrow> Inl e
                          | Inr (res, rounds) \<Rightarrow> Inr (res, this # rounds)))
                  else Inr (Some guess', [this])))
      else Inr (None, []))"
  by pat_completeness auto
termination
  by (relation "measure (\<lambda>(wordSize, wordToGuess, guesses, guess, validWords). wordSize + 1 - guesses)")
     auto

text \<open>
  \<^verbatim>\<open>auto Wordle::PlayRandomGame() -> optional<string>\<close>. The members \<open>wordSize\<close> and
  \<open>dictionary\<close> are parameters, and so is the index \<open>r\<close> drawn by \<open>GetRandomGuess\<close>
  from \<^verbatim>\<open>uniform_int_distribution<int>(0, validWords.size() - 1)\<close>; an index outside the
  list is not a draw the distribution can make.
\<close>

definition PlayRandomGame_rounds ::
  "nat \<Rightarrow> string list \<Rightarrow> nat \<Rightarrow> error + string option \<times> round list" where
  "PlayRandomGame_rounds wordSize dictionary r =
     (let validWords = dictionary in
      if r < length validWords then
        game_loop wordSize (validWords ! r) 0 [] validWords
      else Inl OutOfBounds)"

definition PlayRandomGame :: "nat \<Rightarrow> string list \<Rightarrow> nat \<Rightarrow> error + string option" where
  "PlayRandomGame wordSize dictionary r =
     (case PlayRandomGame_rounds wordSize dictionary r of
        Inl e \<Rightarrow> Inl e
      | Inr (res, rounds) \<Rightarrow> Inr res)"

section \<open>Game driver: interactive play\<close>

text \<open>
  Standard input is the list of the lines still to be read. \<^verbatim>\<open>getline(cin, s)\<close> takes the
  next line; at the end of the input it fails and leaves \<open>s\<close> empty.
\<close>

definition getline :: "string list \<Rightarrow> string \<times> string list" where
  "getline inp = (case inp of [] \<Rightarrow> ([], []) | l # rest \<Rightarrow> (l, rest))"

text \<open>
  The lambda \<open>promptPatterns\<close> of \<^verbatim>\<open>Wordle::PlayOffLineGame\<close>:
  \<^verbatim>\<open>for (int i = 0; i < wordSize;)\<close> with the tokens collected so far in \<open>pats\<close>. The result
  is the vector returned and the input left. The loop does not return when the input
  ends before it is done (every read then yields the empty, invalid token): the value
  is \<open>None\<close>.
\<close>

partial_function (option) promptPatterns ::
  "nat \<Rightarrow> nat \<Rightarrow> string list \<Rightarrow> string list \<Rightarrow> (string list \<times> string list) option" where
  "promptPatterns wordSize i pats inp =
     (if i < wordSize then
        (case getline inp of (pat, rest) \<Rightarrow>
           if pat = ''quit'' \<or> pat = ''remove'' then Some (pats, rest)
           else if pat \<noteq> ''gn'' \<and> pat \<noteq> ''y'' \<and> pat \<noteq> ''gr'' then
             promptPatterns wordSize i pats rest
           else promptPatterns wordSize (i + 1) (pats @ [pat]) rest)
      else Some (pats, inp))"

text \<open>The lambda \<open>buildPattern\<close>.\<close>

definition buildPattern :: "nat \<Rightarrow> string list \<Rightarrow> error + Pattern" where
  "buildPattern wordSize pats =
     for_loop [0..<length pats]
       (\<lambda>i p.
          let c = (if pats ! i = ''gn'' then Green else if pats ! i = ''y'' then Yellow else Gray)
          in SetColor p (position wordSize i) c) 0"

text \<open>
  The command dispatch at the head of the main loop, on the command read, the candidate
  list, the last guess and the input left. The first component of the result tells
  whether the loop is left by the \<^verbatim>\<open>break\<close> of \<^verbatim>\<open>quit\<close>. \<^verbatim>\<open>find\<close> and \<^verbatim>\<open>erase\<close> remove
  the first occurrence of the last guess.
\<close>

definition run_command ::
  "nat \<Rightarrow> string \<Rightarrow> string list \<Rightarrow> string \<Rightarrow> string list \<Rightarrow>
   error + bool \<times> string list \<times> string \<times> string list" where
  "run_command wordSize command validWords lastGuess inp =
     (if command = ''guess'' then
        (case GetNextBestGuess wordSize validWords of
           Inl e \<Rightarrow> Inl e
         | Inr g \<Rightarrow> Inr (False, validWords, g, inp))
      else if command = ''word'' then
        (case getline inp of (w, rest) \<Rightarrow> Inr (False, validWords, w, rest))
      else if command = ''remove'' then
        (if lastGuess = [] then Inr (False, validWords, lastGuess, inp)
         else Inr (False, remove1 lastGuess validWords, lastGuess, inp))
      else if command = ''quit'' then Inr (True, validWords, lastGuess, inp)
      else Inr (False, validWords, lastGuess, inp))"

text \<open>How an interactive session ends.\<close>

datatype ending = Won | Quit

text \<open>
  One iteration of the \<^verbatim>\<open>do ... while (command != "quit")\<close> loop of
  \<^verbatim>\<open>Wordle::PlayOffLineGame\<close>. The result is \<open>None\<close> when \<open>promptPatterns\<close> does not
  return, an error when the program is terminated by a failed assertion or an exception,
  and otherwise the candidate list, the last guess and the input left, together with
  the ending if the loop is left and with \<open>None\<close> if it goes round again.
\<close>

definition offline_iteration ::
  "nat \<Rightarrow> string list \<Rightarrow> string \<Rightarrow> string list \<Rightarrow>
   (error + ending option \<times> string list \<times> string \<times> string list) option" where
  "offline_iteration wordSize validWords lastGuess inp =
     (case getline inp of (command, inp1) \<Rightarrow>
        (case run_command wordSize command validWords lastGuess inp1 of
           Inl e \<Rightarrow> Some (Inl e)
         | Inr (left, validWords1, lastGuess1, inp2) \<Rightarrow>
             if left then Some (Inr (Some Quit, validWords1, lastGuess1, inp2))
             else if command \<noteq> [] \<and> lastGuess1 \<noteq> [] \<and> command \<noteq> ''remove'' \<and>
                     command \<noteq> ''quit'' then
               (case promptPatterns wordSize 0 [] inp2 of
                  None \<Rightarrow> None
                | Some (patterns, inp3) \<Rightarrow>
                    if patterns = [] then
                      Some (Inr (if command \<noteq> ''quit'' then None else Some Quit,
                                 validWords1, lastGuess1, inp3))
                    else
                      (case buildPattern wordSize patterns of
                         Inl e \<Rightarrow> Some (Inl e)
                       | Inr p \<Rightarrow>
                           if p \<noteq> allGreen wordSize then
                             (case FilterAllWordsBestOnPattern p lastGuess1 validWords1 wordSize of
                                Inl e \<Rightarrow> Some (Inl e)
                              | Inr validWords2 \<Rightarrow>
                                  (case GetNextBestGuess wordSize validWords2 of
                                     Inl e \<Rightarrow> Some (Inl e)
                                   | Inr lastGuess2 \<Rightarrow>
                                       Some (Inr (if command \<noteq> ''quit'' then None else Some Quit,
                                                  validWords2, lastGuess2, inp3))))
                           else Some (Inr (Some Won, validWords1, lastGuess1, inp3))))
             else Some (Inr (if command \<noteq> ''quit'' then None else Some Quit,
                             validWords1, lastGuess1, inp2))))"

text \<open>
  The main loop, from the candidate list, the last guess and the input. It does not
  return when the input ends without the session being won or quit: the value is
  \<open>None\<close>.
\<close>

partial_function (option) offline_loop ::
  "nat \<Rightarrow> string list \<Rightarrow> string \<Rightarrow> string list \<Rightarrow>
   (error + ending \<times> string list \<times> string \<times> string list) option" where
  "offline_loop wordSize validWords lastGuess inp =
     (case offline_iteration wordSize validWords lastGuess inp of
        None \<Rightarrow> None
      | Some (Inl e) \<Rightarrow> Some (Inl e)
      | Some (Inr (Some ending, validWords', lastGuess', inp')) \<Rightarrow>
          Some (Inr (ending, validWords', lastGuess', inp'))
      | Some (Inr (None, validWords', lastGuess', inp')) \<Rightarrow>
          offline_loop wordSize validWords' lastGuess' inp')"

text \<open>
  \<^verbatim>\<open>void Wordle::PlayOffLineGame()\<close>, with the members \<open>wordSize\<close> and \<open>dictionary\<close> and
  the lines of standard input as parameters. What is written to standard output is
  not modelled; the result is how the session ended, with the final candidate list and
  last guess and the input not consumed.
\<close>

definition PlayOffLineGame ::
  "nat \<Rightarrow> string list \<Rightarrow> string list \<Rightarrow>
   (error + ending \<times> string list \<times> string \<times> string list) option" where
  "PlayOffLineGame wordSize dictionary inp = offline_loop wordSize dictionary [] inp"

section \<open>Notions used in the proofs\<close>

text \<open>
  The 2-bit field \<open>j\<close> of a pattern, for any \<open>j\<close>: a 32-bit pattern is its sixteen fields.
\<close>

definition field :: "Pattern \<Rightarrow> nat \<Rightarrow> Pattern" where
  "field p j = drop_bit (2 * j) p AND 3"

text \<open>
  The invariant of the first pass after \<open>k\<close> letters of an \<open>n\<close>-letter guess \<open>g\<close> against
  \<open>t\<close>: the letters below \<open>k\<close> that agree are Green and every other field is zero.
\<close>

definition greens_upto :: "nat \<Rightarrow> string \<Rightarrow> string \<Rightarrow> nat \<Rightarrow> Pattern \<Rightarrow> bool" where
  "greens_upto n g t k p \<longleftrightarrow>
     (\<forall>i<n. field p (n - 1 - i) = (if i < k \<and> g ! i = t ! i then 2 else 0)) \<and>
     (\<forall>j. n \<le> j \<and> j < 16 \<longrightarrow> field p j = 0)"

text \<open>
  The invariant of the second pass: a letter is Green exactly where the words agree,
  and the fields beyond the word are zero.
\<close>

definition greens_match :: "nat \<Rightarrow> string \<Rightarrow> string \<Rightarrow> Pattern \<Rightarrow> bool" where
  "greens_match n g t p \<longleftrightarrow>
     (\<forall>i<n. field p (n - 1 - i) = 2 \<longleftrightarrow> g ! i = t ! i) \<and>
     (\<forall>j. n \<le> j \<and> j < 16 \<longrightarrow> field p j = 0)"

text \<open>
  The entropy of word \<open>i\<close> of a candidate list, as \<open>CalculateEntropies\<close> computes it.
\<close>

definition entropy_of :: "string list \<Rightarrow> nat \<Rightarrow> nat \<Rightarrow> real" where
  "entropy_of words wordSize i =
     (case count_patterns words wordSize i of Inl e \<Rightarrow> 0 | Inr pCounters \<Rightarrow> CalculateEntropy pCounters)"

text \<open>The order of the entries of the entropy table, and the first word of each entry.\<close>

definition key_less :: "real \<times> string list \<Rightarrow> real \<times> string list \<Rightarrow> bool" where
  "key_less x y \<longleftrightarrow> CompareDouble (fst x) (fst y)"

definition headed :: "(real \<times> string) set \<Rightarrow> (real \<times> string list) list \<Rightarrow> bool" where
  "headed A m \<longleftrightarrow> (\<forall>x \<in> set m. snd x \<noteq> [] \<and> (fst x, hd (snd x)) \<in> A)"

text \<open>
  The invariant of the loop of \<open>CalculateEntropies\<close> after \<open>k\<close> words: the table is
  ordered by its keys, each entry starts with the word that created its key, and the
  entropy of each word so far is at most tolerantly above some key.
\<close>

definition table_inv :: "string list \<Rightarrow> nat \<Rightarrow> nat \<Rightarrow> (real \<times> string list) list \<Rightarrow> bool" where
  "table_inv words wordSize k m \<longleftrightarrow>
     sorted_wrt key_less m \<and>
     headed {(entropy_of words wordSize i, words ! i) | i. i < k} m \<and>
     (\<forall>i<k. \<exists>x \<in> set m. \<not> CompareDouble (fst x) (entropy_of words wordSize i)) \<and>
     (0 < k \<longrightarrow> m \<noteq> [])"

text \<open>
  What holds of each executed round of self-play against \<open>target\<close>, and of the outcome
  of the loop entered with \<open>guesses\<close> rounds used and the candidate list \<open>vw\<close>.
\<close>

definition round_ok :: "nat \<Rightarrow> string \<Rightarrow> round \<Rightarrow> bool" where
  "round_ok n target rd \<longleftrightarrow>
     target \<in> set (candidates rd) \<and> (\<forall>w \<in> set (candidates rd). length w = n) \<and>
     guessed rd \<in> set (candidates rd) \<and>
     GeneratePattern (guessed rd) target n = Inr (feedback rd)"

definition game_post ::
  "nat \<Rightarrow> string \<Rightarrow> nat \<Rightarrow> string list \<Rightarrow> string option \<times> round list \<Rightarrow> bool" where
  "game_post n target guesses vw out \<longleftrightarrow>
     (case out of (res, rounds) \<Rightarrow>
        length rounds \<le> n + 1 - guesses \<and>
        (guesses < n + 1 \<longrightarrow> rounds \<noteq> [] \<and> candidates (hd rounds) = vw) \<and>
        (\<forall>rd \<in> set rounds. round_ok n target rd) \<and>
        (\<forall>rd \<in> set (butlast rounds). feedback rd \<noteq> allGreen n) \<and>
        (res = None \<longrightarrow> length rounds = n + 1 - guesses \<and>
                          (\<forall>rd \<in> set rounds. feedback rd \<noteq> allGreen n)) \<and>
        (\<forall>w. res = Some w \<longrightarrow> w = target \<and> rounds \<noteq> [] \<and> guessed (last rounds) = w \<and>
                               feedback (last rounds) = allGreen n))"

section \<open>The ranking as the specification words it\<close>

text \<open>
  The tally of pattern \<open>q\<close> for candidate \<open>i\<close>: the number of other candidates \<open>j\<close>
  whose feedback for the guess \<open>i\<close> is \<open>q\<close>.
\<close>

definition spec_tally :: "string list \<Rightarrow> nat \<Rightarrow> nat \<Rightarrow> Pattern \<Rightarrow> nat" where
  "spec_tally words wordSize i q =
     card {j. j < length words \<and> j \<noteq> i \<and>
              GeneratePattern (words ! i) (words ! j) wordSize = Inr q}"

text \<open>
  The Shannon entropy \<open>H = - \<Sum> p\<^sub>k log\<^sub>2 p\<^sub>k\<close> of the pattern distribution of candidate
  \<open>i\<close>, over the patterns that occur, with \<open>p\<^sub>k\<close> the tally of the pattern divided by the
  number of other candidates.
\<close>

definition spec_entropy :: "string list \<Rightarrow> nat \<Rightarrow> nat \<Rightarrow> real" where
  "spec_entropy words wordSize i =
     - (\<Sum>q | 0 < spec_tally words wordSize i q.
          (real (spec_tally words wordSize i q) / real (length words - 1)) *
          log 2 (real (spec_tally words wordSize i q) / real (length words - 1)))"

text \<open>
  The choice among the candidates \<open>0..n\<close> with entropies \<open>H\<close> and tolerance \<open>tol\<close>: the
  first candidate is chosen, and a later candidate replaces the choice only if its
  entropy is at least \<open>tol\<close> above the entropy of the candidate chosen so far. Entropies
  closer than that are ties, which the earlier candidate wins.
\<close>

fun spec_choice :: "real \<Rightarrow> (nat \<Rightarrow> real) \<Rightarrow> nat \<Rightarrow> nat" where
  "spec_choice tol H 0 = 0"
| "spec_choice tol H (Suc n) =
     (if H (spec_choice tol H n) + tol \<le> H (Suc n) then Suc n else spec_choice tol H n)"

text \<open>The tally over the candidates below \<open>k\<close>, for the invariant of the counting loop.\<close>

definition tally_upto :: "string list \<Rightarrow> nat \<Rightarrow> nat \<Rightarrow> nat \<Rightarrow> Pattern \<Rightarrow> nat" where
  "tally_upto words wordSize i k q =
     card {j. j < k \<and> j \<noteq> i \<and>
              GeneratePattern (words ! i) (words ! j) wordSize = Inr q}"

definition counts_inv ::
  "string list \<Rightarrow> nat \<Rightarrow> nat \<Rightarrow> nat \<Rightarrow> (Pattern \<times> int) list \<Rightarrow> bool" where
  "counts_inv words wordSize i k pCounters \<longleftrightarrow>
     distinct (map fst pCounters) \<and>
     (\<forall>q. map_of pCounters q =
            (if 0 < tally_upto words wordSize i k q
             then Some (int (tally_upto words wordSize i k q)) else None))"

text \<open>
  The invariant of the loop of \<open>CalculateEntropies\<close> that follows the last entry of the
  table: after \<open>k\<close> words it is the entry of the candidate chosen among them.
\<close>

definition last_inv ::
  "real \<Rightarrow> (nat \<Rightarrow> real) \<Rightarrow> string list \<Rightarrow> nat \<Rightarrow> (real \<times> string list) list \<Rightarrow> bool" where
  "last_inv tol H words k m \<longleftrightarrow>
     sorted_wrt key_less m \<and> (\<forall>x \<in> set m. snd x \<noteq> []) \<and>
     (k = 0 \<longrightarrow> m = []) \<and>
     (0 < k \<longrightarrow> m \<noteq> [] \<and> fst (last m) = H (spec_choice tol H (k - 1)) \<and>
                 hd (snd (last m)) = words ! spec_choice tol H (k - 1))"

section \<open>The pattern codec: fields\<close>

lemma three_mask: "(3::Pattern) = mask 2"
  by (simp add: mask_eq_exp_minus_1)

lemma bit_field: "bit (field p j) b \<longleftrightarrow> b < 2 \<and> bit p (2 * j + b)"
  by (auto simp: field_def three_mask bit_simps)

lemma field_zero: "field 0 j = 0"
  by (simp add: field_def)

lemma field_or: "field (a OR b) j = field a j OR field b j"
  by (rule bit_word_eqI) (auto simp: bit_field bit_simps)

lemma bit_two: "bit (2::Pattern) b \<longleftrightarrow> b = 1"
  by (auto simp: bit_simps)
 
lemma field_push_green: "j < 16 \<Longrightarrow> field (push_bit (i * 2) 2) j = (if i = j then 2 else 0)"
  apply (rule bit_word_eqI)
  apply (auto simp: bit_field bit_simps bit_two)
  done

lemma position_in_range:
  assumes "i < wordSize" "wordSize \<le> 8"
  shows "position wordSize i = int (wordSize - 1 - i)"
proof -
  have eq: "int wordSize - 1 - int i = int (wordSize - 1 - i)"
    using assms by simp
  have "sint (word_of_int (int (wordSize - 1 - i)) :: 32 word) = int (wordSize - 1 - i)"
    unfolding sint_sbintrunc' using assms
    by (intro signed_take_bit_int_eq_self) simp_all
  then show ?thesis
    unfolding position_def eq .
qed

lemma for_loop_upt_rule:
  assumes "k \<le> n" "P k s"
    and step: "\<And>i s. k \<le> i \<Longrightarrow> i < n \<Longrightarrow> P i s \<Longrightarrow> \<exists>s'. body i s = Inr s' \<and> P (Suc i) s'"
  shows "\<exists>s'. for_loop [k..<n] body s = Inr s' \<and> P n s'"
  using assms
proof (induction "n - k" arbitrary: k s)
  case 0
  then show ?case by simp
next
  case (Suc d)
  then have kn: "k < n" by simp
  from Suc.prems(3)[OF le_refl kn Suc.prems(2)] obtain s1 where s1: "body k s = Inr s1" "P (Suc k) s1"
    by blast
  have "\<exists>s'. for_loop [Suc k..<n] body s1 = Inr s' \<and> P n s'"
    using Suc.hyps(1)[of "Suc k" s1] Suc.hyps(2) kn s1(2) Suc.prems(3) by simp
  with s1 kn show ?case by (simp add: upt_conv_Cons)
qed

lemma to_Color_code: "to_Color (color_code c) = c"
  by (cases c) (simp_all add: to_Color_def)

lemma bit_color_code: "bit (color_code c) b \<Longrightarrow> b < 2"
proof -
  have "color_code c AND mask 2 = color_code c"
    by (cases c) (simp_all add: mask_eq_exp_minus_1)
  then show "bit (color_code c) b \<Longrightarrow> b < 2"
    by (metis bit_and_iff bit_mask_iff)
qed

lemma bit_write:
  fixes p :: Pattern
  shows "bit ((p AND (NOT (push_bit s 3))) OR (push_bit s (color_code c))) k \<longleftrightarrow>
         (if s \<le> k \<and> k < s + 2 then k < 32 \<and> bit (color_code c) (k - s) else bit p k)"
proof (cases "s \<le> k \<and> k < s + 2")
  case True
  then show ?thesis
    by (auto simp: bit_simps three_mask dest: bit_imp_le_length)
next
  case False
  then have "\<not> bit (color_code c) (k - s) \<or> k < s"
    using bit_color_code[of c "k - s"] by auto
  with False show ?thesis
    by (auto simp: bit_simps three_mask dest: bit_imp_le_length)
qed

lemma GetColor_field:
  assumes "0 \<le> i" "i \<le> 7"
  shows "GetColor p i = Inr (to_Color (field p (nat i)))"
proof -
  have "drop_bit (2 * nat i) (p AND push_bit (2 * nat i) 3) AND 3 = field p (nat i)"
    by (rule bit_word_eqI) (auto simp: bit_field bit_simps three_mask dest: bit_imp_le_length)
  with assms show ?thesis
    by (simp add: GetColor_def Let_def nat_mult_distrib)
qed

lemma SetColor_Inr:
  assumes "0 \<le> i" "i \<le> 7"
  shows "\<exists>p'. SetColor p i c = Inr p'"
  using assms by (simp add: SetColor_def Let_def)

lemma field_SetColor_same:
  assumes "0 \<le> i" "i \<le> 7" "SetColor p i c = Inr p'"
  shows "field p' (nat i) = color_code c"
proof (rule bit_word_eqI)
  fix n assume "n < LENGTH(32)"
  from assms have p': "p' = (p AND (NOT (push_bit (2 * nat i) 3))) OR (push_bit (2 * nat i) (color_code c))"
    by (simp add: SetColor_def Let_def nat_mult_distrib mult.commute)
  from assms have "2 * nat i + 1 < 32" by simp
  then show "bit (field p' (nat i)) n = bit (color_code c) n"
    unfolding p' bit_field bit_write using bit_color_code[of c n] by auto
qed

lemma field_SetColor_other:
  assumes "0 \<le> i" "i \<le> 7" "SetColor p i c = Inr p'" "j \<noteq> nat i"
  shows "field p' j = field p j"
proof (rule bit_word_eqI)
  fix n assume "n < LENGTH(32)"
  from assms have p': "p' = (p AND (NOT (push_bit (2 * nat i) 3))) OR (push_bit (2 * nat i) (color_code c))"
    by (simp add: SetColor_def Let_def nat_mult_distrib mult.commute)
  from assms(4) have "n < 2 \<Longrightarrow> \<not> (2 * nat i \<le> 2 * j + n \<and> 2 * j + n < 2 * nat i + 2)" by arith
  then show "bit (field p' j) n = bit (field p j) n"
    unfolding p' bit_field bit_write by auto
qed

lemma pattern_eqI:
  assumes "\<And>j. j < 16 \<Longrightarrow> field p j = field q j"
  shows "p = q"
proof (rule bit_word_eqI)
  fix n assume n: "n < LENGTH(32)"
  have "bit (field p (n div 2)) (n mod 2) = bit (field q (n div 2)) (n mod 2)"
    using assms[of "n div 2"] n by simp
  then show "bit p n = bit q n"
    by (simp add: bit_field)
qed

lemma field_allGreen: "j < 16 \<Longrightarrow> field (allGreen n) j = (if j < n then 2 else 0)"
  unfolding allGreen_def
  by (induction n) (auto simp: field_zero field_or field_push_green)

lemma write_letter:
  assumes "i0 < n" "n \<le> 8"
  shows "\<exists>p'. SetColor p (position n i0) c = Inr p' \<and> field p' (n - 1 - i0) = color_code c
           \<and> (\<forall>j. j \<noteq> n - 1 - i0 \<longrightarrow> field p' j = field p j)"
proof -
  have pos: "position n i0 = int (n - 1 - i0)"
    using assms by (rule position_in_range)
  have rng: "0 \<le> position n i0" "position n i0 \<le> 7" "nat (position n i0) = n - 1 - i0"
    using assms by (simp_all add: pos)
  obtain p' where p': "SetColor p (position n i0) c = Inr p'"
    using SetColor_Inr[OF rng(1,2)] by blast
  show ?thesis
    using field_SetColor_same[OF rng(1,2) p'] field_SetColor_other[OF rng(1,2) p'] p' rng(3)
    by auto
qed

lemma read_letter:
  assumes "i0 < n" "n \<le> 8"
  shows "GetColor p (position n i0) = Inr (to_Color (field p (n - 1 - i0)))"
proof -
  have pos: "position n i0 = int (n - 1 - i0)"
    using assms by (rule position_in_range)
  have rng: "0 \<le> position n i0" "position n i0 \<le> 7" "nat (position n i0) = n - 1 - i0"
    using assms by (simp_all add: pos)
  show ?thesis using GetColor_field[OF rng(1,2), of p] rng(3) by simp
qed

lemma green_step_inv:
  assumes len: "length g = n" "length t = n" "n \<le> 8" and i: "i < n"
    and inv: "greens_upto n g t i (fst s)"
  shows "\<exists>s'. green_step n g t i s = Inr s' \<and> greens_upto n g t (Suc i) (fst s')"
proof -
  obtain p f where s: "s = (p, f)" by (cases s)
  have ch: "char_at t i = Inr (t ! i)" using len i by (simp add: char_at_def)
  show ?thesis
  proof (cases "g ! i = t ! i")
    case False
    have "greens_upto n g t (Suc i) p"
      using inv False unfolding greens_upto_def s by (auto simp: less_Suc_eq)
    with False show ?thesis by (simp add: green_step_def s ch)
  next
    case True
    from write_letter[OF i len(3), of p Green] obtain p' where
      p': "SetColor p (position n i) Green = Inr p'" "field p' (n - 1 - i) = 2"
          "\<And>j. j \<noteq> n - 1 - i \<Longrightarrow> field p' j = field p j"
      by auto
    have "greens_upto n g t (Suc i) p'"
      unfolding greens_upto_def
    proof (intro conjI allI impI)
      fix k assume k: "k < n"
      show "field p' (n - 1 - k) = (if k < Suc i \<and> g ! k = t ! k then 2 else 0)"
      proof (cases "k = i")
        case True
        with \<open>g ! i = t ! i\<close> p'(2) show ?thesis by simp
      next
        case False
        with k i have "n - 1 - k \<noteq> n - 1 - i" by arith
        then have "field p' (n - 1 - k) = field p (n - 1 - k)" by (rule p'(3))
        with inv k False show ?thesis
          unfolding greens_upto_def s by (auto simp: less_Suc_eq)
      qed
    next
      fix j assume j: "n \<le> j \<and> j < 16"
      with i have "j \<noteq> n - 1 - i" by arith
      then have "field p' j = field p j" by (rule p'(3))
      with inv j show "field p' j = 0" unfolding greens_upto_def s by simp
    qed
    with True p'(1) show ?thesis by (simp add: green_step_def s ch)
  qed
qed

lemma to_Color_Green: "to_Color v = Green \<longleftrightarrow> v = 2"
  by (simp add: to_Color_def)

lemma yellow_step_inv:
  assumes len: "n \<le> 8" and i: "i < n"
    and inv: "greens_match n g t (fst s)"
  shows "\<exists>s'. yellow_step n g i s = Inr s' \<and> greens_match n g t (fst s')"
proof -
  obtain p f where s: "s = (p, f)" by (cases s)
  have rd: "GetColor p (position n i) = Inr (to_Color (field p (n - 1 - i)))"
    using i len by (rule read_letter)
  show ?thesis
  proof (cases "field p (n - 1 - i) = 2")
    case True
    with inv show ?thesis by (simp add: yellow_step_def s rd to_Color_Green)
  next
    case False
    have keep: "greens_match n g t p'"
      if p': "field p' (n - 1 - i) = color_code c" "\<And>j. j \<noteq> n - 1 - i \<Longrightarrow> field p' j = field p j"
        and c: "c = Yellow \<or> c = Gray" for p' c
      unfolding greens_match_def
    proof (intro conjI allI impI)
      fix k assume k: "k < n"
      show "(field p' (n - 1 - k) = 2) = (g ! k = t ! k)"
      proof (cases "k = i")
        case True
        have "field p' (n - 1 - i) \<noteq> 2" using p'(1) c by auto
        moreover have "g ! i \<noteq> t ! i" using inv False i unfolding greens_match_def s by auto
        ultimately show ?thesis using True by simp
      next
        case False
        with k i have "n - 1 - k \<noteq> n - 1 - i" by arith
        then have "field p' (n - 1 - k) = field p (n - 1 - k)" by (rule p'(2))
        with inv k show ?thesis unfolding greens_match_def s by simp
      qed
    next
      fix j assume j: "n \<le> j \<and> j < 16"
      with i have "j \<noteq> n - 1 - i" by arith
      then have "field p' j = field p j" by (rule p'(2))
      with inv j show "field p' j = 0" unfolding greens_match_def s by simp
    qed
    from write_letter[OF i len, of p Yellow] obtain py where
      py: "SetColor p (position n i) Yellow = Inr py" "greens_match n g t py"
      using keep[of _ Yellow] by auto
    from write_letter[OF i len, of p Gray] obtain pg where
      pg: "SetColor p (position n i) Gray = Inr pg" "greens_match n g t pg"
      using keep[of _ Gray] by auto
    from False py pg show ?thesis
      by (simp add: yellow_step_def s rd to_Color_Green Let_def)
  qed
qed

lemma GeneratePattern_greens:
  assumes len: "length g = n" "length t = n" "n \<le> 8"
  shows "\<exists>p. GeneratePattern g t n = Inr p \<and> greens_match n g t p"
proof -
  have init: "greens_upto n g t 0 (fst (0, count_letters t))"
    by (simp add: greens_upto_def field_zero)
  have "\<exists>s1. for_loop [0..<n] (green_step n g t) (0, count_letters t) = Inr s1
              \<and> greens_upto n g t n (fst s1)"
    using init green_step_inv[OF len]
    by (intro for_loop_upt_rule[where P = "\<lambda>k s. greens_upto n g t k (fst s)"]) auto
  then obtain s1 where s1: "for_loop [0..<n] (green_step n g t) (0, count_letters t) = Inr s1"
    "greens_upto n g t n (fst s1)" by blast
  have m1: "greens_match n g t (fst s1)"
    using s1(2) unfolding greens_upto_def greens_match_def by auto
  have "\<exists>s2. for_loop [0..<n] (yellow_step n g) s1 = Inr s2 \<and> greens_match n g t (fst s2)"
    using m1 yellow_step_inv[OF len(3)]
    by (intro for_loop_upt_rule[where P = "\<lambda>k s. greens_match n g t (fst s)"]) auto
  then obtain s2 where s2: "for_loop [0..<n] (yellow_step n g) s1 = Inr s2"
    "greens_match n g t (fst s2)" by blast
  show ?thesis
    using s1(1) s2 len(1) by (auto simp: GeneratePattern_def split: prod.splits)
qed

lemma GeneratePattern_self:
  assumes "length w = n" "n \<le> 8"
  shows "GeneratePattern w w n = Inr (allGreen n)"
proof -
  from GeneratePattern_greens[OF assms(1) assms(1) assms(2)] obtain p where
    p: "GeneratePattern w w n = Inr p" "greens_match n w w p" by blast
  have "p = allGreen n"
  proof (rule pattern_eqI)
    fix j :: nat assume j: "j < 16"
    show "field p j = field (allGreen n) j"
    proof (cases "j < n")
      case True
      then have "n - 1 - (n - 1 - j) = j" "n - 1 - j < n" by arith+
      with p(2) have "field p j = 2" unfolding greens_match_def by (metis (full_types))
      with True j show ?thesis by (simp add: field_allGreen)
    next
      case False
      with p(2) j show ?thesis by (simp add: field_allGreen greens_match_def)
    qed
  qed
  with p(1) show ?thesis by simp
qed

lemma GeneratePattern_allGreen_eq:
  assumes "length g = n" "length t = n" "n \<le> 8" "GeneratePattern g t n = Inr (allGreen n)"
  shows "g = t"
proof -
  from GeneratePattern_greens[OF assms(1-3)] assms(4)
  have m: "greens_match n g t (allGreen n)" by auto
  show ?thesis
  proof (rule nth_equalityI)
    show "length g = length t" using assms by simp
  next
    fix i assume "i < length g"
    then have i: "i < n" using assms by simp
    then have "n - 1 - i < 16" "n - 1 - i < n" using assms(3) by arith+
    then have "field (allGreen n) (n - 1 - i) = 2" by (simp add: field_allGreen)
    with m i show "g ! i = t ! i" unfolding greens_match_def by blast
  qed
qed


section \<open>The all-Green pattern and the filter\<close>

lemma GetColor_allGreen:
  assumes "j < n" "n \<le> 8"
  shows "GetColor (allGreen n) (int j) = Inr Green"
proof -
  have "GetColor (allGreen n) (int j) = Inr (to_Color (field (allGreen n) (nat (int j))))"
    using assms by (intro GetColor_field) simp_all
  also have "field (allGreen n) (nat (int j)) = 2"
    using assms by (simp add: field_allGreen)
  finally show ?thesis by (simp add: to_Color_def)
qed

lemma bit_as_field: "bit p m \<longleftrightarrow> bit (field p (m div 2)) (m mod 2)"
  by (simp add: bit_field)

lemma bit_allGreen_low:
  assumes "bit (allGreen n) m"
  shows "m < 2 * n"
proof (rule ccontr)
  assume "\<not> m < 2 * n"
  then have n: "\<not> m div 2 < n" by arith
  from assms have "m < 32" by (auto dest: bit_imp_le_length)
  then have "m div 2 < 16" by arith
  then have "field (allGreen n) (m div 2) = 0"
    using n by (simp add: field_allGreen)
  with assms show False
    by (subst (asm) bit_as_field) simp
qed

lemma allGreen_high_zero: "drop_bit (2 * n) (allGreen n) = 0"
proof (rule bit_word_eqI)
  fix k assume "k < LENGTH(32)"
  have "\<not> bit (allGreen n) (2 * n + k)"
    using bit_allGreen_low[of n "2 * n + k"] by auto
  then show "bit (drop_bit (2 * n) (allGreen n)) k = bit (0 :: Pattern) k"
    by (simp add: bit_simps add.commute)
qed

lemma copy_if_filter:
  assumes "\<And>w. w \<in> set ws \<Longrightarrow> pred w = Inr (P w)"
  shows "copy_if ws result pred = Inr (result @ filter P ws)"
  using assms by (induction ws arbitrary: result) auto

lemma FilterAllWordsBestOnPattern_filter:
  assumes "wordSize \<le> 8" "length guess = wordSize" "\<And>w. w \<in> set validWords \<Longrightarrow> length w = wordSize"
  shows "FilterAllWordsBestOnPattern p guess validWords wordSize =
         Inr (filter (\<lambda>w. GeneratePattern guess w wordSize = Inr p) validWords)"
proof -
  have "(case GeneratePattern guess w wordSize of Inl e \<Rightarrow> Inl e | Inr q \<Rightarrow> Inr (q = p))
        = Inr (GeneratePattern guess w wordSize = Inr p)" if "w \<in> set validWords" for w
    using GeneratePattern_greens[OF assms(2) assms(3)[OF that] assms(1)] by auto
  then show ?thesis
    unfolding FilterAllWordsBestOnPattern_def
    using copy_if_filter[of validWords _ "\<lambda>w. GeneratePattern guess w wordSize = Inr p" "[]"]
    by simp
qed


section \<open>The entropy table\<close>

lemma CompareDouble_iff: "CompareDouble a b \<longleftrightarrow> a + 9671406556917035 / 2 ^ 83 \<le> b"
  by (simp add: CompareDouble_def rounded_less_neg_EPSILON_def EPSILON_def) argo

lemma CompareDouble_irrefl: "\<not> CompareDouble a a"
  by (simp add: CompareDouble_iff)

lemma CompareDouble_trans: "CompareDouble a b \<Longrightarrow> CompareDouble b c \<Longrightarrow> CompareDouble a c"
  by (simp add: CompareDouble_iff)

lemma CompareDouble_less: "CompareDouble a b \<Longrightarrow> a < b"
  by (simp add: CompareDouble_iff)

lemma CompareDouble_mono: "\<not> CompareDouble k h \<Longrightarrow> k \<le> k' \<Longrightarrow> \<not> CompareDouble k' h"
  by (simp add: CompareDouble_iff)

lemma keys_push_entropy_sub: "fst ` set (push_entropy k w m) \<subseteq> insert k (fst ` set m)"
  by (induction k w m rule: push_entropy.induct) auto

lemma keys_push_entropy_sup: "fst ` set m \<subseteq> fst ` set (push_entropy k w m)"
  by (induction k w m rule: push_entropy.induct) auto

lemma sorted_push_entropy:
  "sorted_wrt key_less m \<Longrightarrow> sorted_wrt key_less (push_entropy k w m)"
proof (induction k w m rule: push_entropy.induct)
  case (1 k w)
  then show ?case by simp
next
  case (2 k w k' ws m)
  show ?case
  proof (cases "CompareDouble k' k")
    case True
    have "key_less (k', ws) y" if "y \<in> set (push_entropy k w m)" for y
    proof -
      from that keys_push_entropy_sub[of k w m] have "fst y = k \<or> fst y \<in> fst ` set m"
        by auto
      then show ?thesis
        using True "2.prems" by (auto simp: key_less_def)
    qed
    with True 2 show ?thesis by simp
  next
    case False
    show ?thesis
    proof (cases "CompareDouble k k'")
      case True
      have "key_less (k, [w]) y" if "y \<in> set m" for y
        using that "2.prems" True CompareDouble_trans[of k k' "fst y"] by (auto simp: key_less_def)
      with True False "2.prems" show ?thesis by (simp add: key_less_def)
    next
      case F2: False
      with False "2.prems" show ?thesis by (simp add: key_less_def)
    qed
  qed
qed

lemma headed_push_entropy:
  "headed A m \<Longrightarrow> headed (insert (k, w) A) (push_entropy k w m)"
  by (induction k w m rule: push_entropy.induct) (auto simp: headed_def)

lemma covered_push_entropy:
  "\<exists>x \<in> set (push_entropy k w m). \<not> CompareDouble (fst x) k"
  by (induction k w m rule: push_entropy.induct) (auto simp: CompareDouble_irrefl)

lemma push_entropy_nonempty: "push_entropy k w m \<noteq> []"
  by (induction k w m rule: push_entropy.induct) auto

lemma sorted_last_max:
  assumes "sorted_wrt key_less m" "x \<in> set m"
  shows "fst x \<le> fst (last m)"
proof -
  from assms(2) obtain i where i: "i < length m" "x = m ! i" by (auto simp: in_set_conv_nth)
  have m: "m \<noteq> []" using assms(2) by auto
  show ?thesis
  proof (cases "i = length m - 1")
    case True
    with i m show ?thesis by (simp add: last_conv_nth)
  next
    case False
    with i have "i < length m - 1" "length m - 1 < length m" by arith+
    with assms(1) have "key_less (m ! i) (m ! (length m - 1))"
      by (simp add: sorted_wrt_nth_less)
    with i m show ?thesis
      by (auto simp: key_less_def last_conv_nth dest: CompareDouble_less)
  qed
qed


lemma count_patterns_Inr:
  assumes "n \<le> 8" "\<And>w. w \<in> set ws \<Longrightarrow> length w = n" "i < length ws"
  shows "\<exists>c. count_patterns ws n i = Inr c"
proof -
  have step: "\<exists>s'. (if i \<noteq> j then
                (case GeneratePattern (ws ! i) (ws ! j) n of
                   Inl e \<Rightarrow> Inl e
                 | Inr q \<Rightarrow> Inr (increment q s))
              else Inr s) = Inr s' \<and> True" if "j < length ws" for j s
  proof -
    have "length (ws ! i) = n" "length (ws ! j) = n"
      using assms(2,3) that by simp_all
    from GeneratePattern_greens[OF this assms(1)] show ?thesis by auto
  qed
  have "\<exists>s'. for_loop [0..<length ws]
          (\<lambda>j pCounters. if i \<noteq> j then
                (case GeneratePattern (ws ! i) (ws ! j) n of
                   Inl e \<Rightarrow> Inl e
                 | Inr q \<Rightarrow> Inr (increment q pCounters))
              else Inr pCounters) [] = Inr s' \<and> True"
    by (rule for_loop_upt_rule[where P = "\<lambda>_ _. True"]) (use step in auto)
  then show ?thesis by (simp add: count_patterns_def)
qed

lemma headed_mono: "headed A m \<Longrightarrow> A \<subseteq> B \<Longrightarrow> headed B m"
  by (auto simp: headed_def)

lemma table_inv_step:
  assumes "table_inv ws n i m"
  shows "table_inv ws n (Suc i) (push_entropy (entropy_of ws n i) (ws ! i) m)"
  unfolding table_inv_def
proof (intro conjI allI impI)
  let ?m' = "push_entropy (entropy_of ws n i) (ws ! i) m"
  show "sorted_wrt key_less ?m'"
    using assms by (simp add: table_inv_def sorted_push_entropy)
  have "headed (insert (entropy_of ws n i, ws ! i) {(entropy_of ws n j, ws ! j) | j. j < i}) ?m'"
    using assms by (simp add: table_inv_def headed_push_entropy)
  then show "headed {(entropy_of ws n j, ws ! j) | j. j < Suc i} ?m'"
    by (rule headed_mono) (auto simp: less_Suc_eq)
  show "?m' \<noteq> []" by (rule push_entropy_nonempty)
  fix j assume "j < Suc i"
  then consider "j = i" | "j < i" by arith
  then show "\<exists>x \<in> set ?m'. \<not> CompareDouble (fst x) (entropy_of ws n j)"
  proof cases
    case 1
    then show ?thesis using covered_push_entropy by simp
  next
    case 2
    with assms obtain x where x: "x \<in> set m" "\<not> CompareDouble (fst x) (entropy_of ws n j)"
      by (auto simp: table_inv_def)
    from x(1) keys_push_entropy_sup[of m "entropy_of ws n i" "ws ! i"]
    obtain y where y: "y \<in> set ?m'" "fst y = fst x" by (metis (no_types, lifting) image_iff subsetD)
    from x(2) have "\<not> CompareDouble (fst y) (entropy_of ws n j)" by (simp add: y(2))
    with y(1) show ?thesis by (rule rev_bexI)
  qed
qed

lemma CalculateEntropies_table:
  assumes "n \<le> 8" "\<And>w. w \<in> set ws \<Longrightarrow> length w = n"
  shows "\<exists>m. CalculateEntropies ws n [] = Inr m \<and> table_inv ws n (length ws) m"
  unfolding CalculateEntropies_def
proof (rule for_loop_upt_rule[where P = "table_inv ws n"])
  show "table_inv ws n 0 []" by (simp add: table_inv_def headed_def)
next
  fix i m assume i: "i < length ws" and inv: "table_inv ws n i m"
  from count_patterns_Inr[OF assms i] obtain c where c: "count_patterns ws n i = Inr c" by blast
  then have "entropy_of ws n i = CalculateEntropy c" by (simp add: entropy_of_def)
  with table_inv_step[OF inv] c
  show "\<exists>s'. (case count_patterns ws n i of Inl e \<Rightarrow> Inl e
               | Inr pCounters \<Rightarrow> Inr (push_entropy (CalculateEntropy pCounters) (ws ! i) m)) = Inr s'
             \<and> table_inv ws n (Suc i) s'"
    by simp
qed simp

lemma GetNextBestGuess_max:
  assumes "n \<le> 8" "\<And>w. w \<in> set ws \<Longrightarrow> length w = n" "ws \<noteq> []"
  shows "\<exists>i m. i < length ws \<and> CalculateEntropies ws n [] = Inr m \<and> m \<noteq> [] \<and>
           snd (last m) \<noteq> [] \<and> hd (snd (last m)) = ws ! i \<and>
           fst (last m) = entropy_of ws n i \<and>
           GetNextBestGuess n ws = Inr (ws ! i) \<and>
           (\<forall>j<length ws. \<not> CompareDouble (entropy_of ws n i) (entropy_of ws n j))"
proof -
  from CalculateEntropies_table[OF assms(1,2)] obtain m where
    m: "CalculateEntropies ws n [] = Inr m" "table_inv ws n (length ws) m" by blast
  from m(2) assms(3) have ne: "m \<noteq> []" by (simp add: table_inv_def)
  then have "last m \<in> set m" by simp
  with m(2) obtain i where i: "i < length ws" "snd (last m) \<noteq> []"
    "fst (last m) = entropy_of ws n i" "hd (snd (last m)) = ws ! i"
    by (auto simp: table_inv_def headed_def)
  have guess: "GetNextBestGuess n ws = Inr (ws ! i)"
    using m(1) ne i(2,4) by (cases "snd (last m)") (simp_all add: GetNextBestGuess_def)
  have "\<not> CompareDouble (entropy_of ws n i) (entropy_of ws n j)" if "j < length ws" for j
  proof -
    from m(2) that obtain x where x: "x \<in> set m" "\<not> CompareDouble (fst x) (entropy_of ws n j)"
      by (auto simp: table_inv_def)
    have "fst x \<le> fst (last m)"
      using m(2) x(1) by (intro sorted_last_max) (simp_all add: table_inv_def)
    with x(2) show ?thesis unfolding i(3)[symmetric] by (rule CompareDouble_mono)
  qed
  with i m(1) ne guess show ?thesis by blast
qed


section \<open>The table against the specification of the ranking\<close>

lemma map_of_increment:
  "map_of (increment k m) = (map_of m)(k \<mapsto> (case map_of m k of None \<Rightarrow> 1 | Some c \<Rightarrow> c + 1))"
  by (induction k m rule: increment.induct) (auto simp: fun_eq_iff)

lemma keys_increment: "fst ` set (increment k m) = insert k (fst ` set m)"
  by (induction k m rule: increment.induct) auto

lemma distinct_increment: "distinct (map fst m) \<Longrightarrow> distinct (map fst (increment k m))"
  by (induction k m rule: increment.induct) (auto simp: keys_increment)

lemma tally_upto_Suc:
  "tally_upto ws n i (Suc k) q =
     tally_upto ws n i k q +
       (if k \<noteq> i \<and> GeneratePattern (ws ! i) (ws ! k) n = Inr q then 1 else 0)"
proof -
  let ?A = "{j. j < k \<and> j \<noteq> i \<and> GeneratePattern (ws ! i) (ws ! j) n = Inr q}"
  have fin: "finite ?A" by simp
  have "{j. j < Suc k \<and> j \<noteq> i \<and> GeneratePattern (ws ! i) (ws ! j) n = Inr q}
        = (if k \<noteq> i \<and> GeneratePattern (ws ! i) (ws ! k) n = Inr q then insert k ?A else ?A)"
    by (auto simp: less_Suc_eq)
  moreover have "k \<notin> ?A" by simp
  ultimately show ?thesis
    unfolding tally_upto_def using fin by (simp del: finite_Collect_conjI)
qed

lemma counts_inv_step:
  assumes "counts_inv ws n i k pc"
  shows "k = i \<Longrightarrow> counts_inv ws n i (Suc k) pc"
    and "k \<noteq> i \<Longrightarrow> GeneratePattern (ws ! i) (ws ! k) n = Inr q0 \<Longrightarrow>
           counts_inv ws n i (Suc k) (increment q0 pc)"
  using assms
  by (auto simp: counts_inv_def tally_upto_Suc distinct_increment map_of_increment)

lemma count_patterns_counts:
  assumes "n \<le> 8" "\<And>w. w \<in> set ws \<Longrightarrow> length w = n" "i < length ws"
  shows "\<exists>c. count_patterns ws n i = Inr c \<and> counts_inv ws n i (length ws) c"
  unfolding count_patterns_def
proof (rule for_loop_upt_rule[where P = "counts_inv ws n i"])
  show "counts_inv ws n i 0 []" by (simp add: counts_inv_def tally_upto_def)
next
  fix j pc assume j: "j < length ws" and inv: "counts_inv ws n i j pc"
  have "length (ws ! i) = n" "length (ws ! j) = n" using assms(2,3) j by simp_all
  from GeneratePattern_greens[OF this assms(1)] obtain q0 where
    q0: "GeneratePattern (ws ! i) (ws ! j) n = Inr q0" by blast
  show "\<exists>s'. (if i \<noteq> j then
                (case GeneratePattern (ws ! i) (ws ! j) n of
                   Inl e \<Rightarrow> Inl e
                 | Inr q \<Rightarrow> Inr (increment q pc))
              else Inr pc) = Inr s' \<and> counts_inv ws n i (Suc j) s'"
    using counts_inv_step[OF inv] q0 by (cases "i = j") auto
qed simp


lemma fold_sum_counts: "fold (\<lambda>p s. s + snd p) pc (a::int) = a + sum_list (map snd pc)"
  by (induction pc arbitrary: a) simp_all

lemma fold_entropy_terms:
  "fold (\<lambda>c entropy. let p = g c in if p > 0 then entropy + p * log 2 p else entropy) pc (a::real)
   = a + sum_list (map (\<lambda>c. if g c > 0 then g c * log 2 (g c) else 0) pc)"
  by (induction pc arbitrary: a) (simp_all add: Let_def)

lemma sum_list_by_key:
  assumes "distinct (map fst pc)"
  shows "sum_list (map h pc) = (\<Sum>q \<in> fst ` set pc. h (q, the (map_of pc q)))"
proof -
  have d: "distinct pc" using assms by (rule distinct_map[THEN iffD1, THEN conjunct1])
  have inj: "inj_on fst (set pc)" using assms by (simp add: distinct_map)
  have "sum_list (map h pc) = sum h (set pc)"
    using d by (rule sum_list_distinct_conv_sum_set)
  also have "\<dots> = sum ((\<lambda>q. h (q, the (map_of pc q))) \<circ> fst) (set pc)"
    using assms by (intro sum.cong) auto
  also have "\<dots> = (\<Sum>q \<in> fst ` set pc. h (q, the (map_of pc q)))"
    using inj by (rule sum.reindex[symmetric])
  finally show ?thesis .
qed

lemma CalculateEntropy_by_key:
  assumes "distinct (map fst pc)"
    and S: "S = (\<Sum>q \<in> fst ` set pc. the (map_of pc q))"
  shows "CalculateEntropy pc =
    - (\<Sum>q \<in> fst ` set pc.
         if real_of_int (the (map_of pc q)) / real_of_int S > 0
         then real_of_int (the (map_of pc q)) / real_of_int S *
              log 2 (real_of_int (the (map_of pc q)) / real_of_int S)
         else 0)"
proof -
  define t where "t = (\<lambda>c::Pattern \<times> int.
      if real_of_int (snd c) / real_of_int S > 0
      then real_of_int (snd c) / real_of_int S * log 2 (real_of_int (snd c) / real_of_int S)
      else 0)"
  have s: "fold (\<lambda>p s. s + snd p) pc (0::int) = S"
    unfolding S using sum_list_by_key[OF assms(1), of snd] by (simp add: fold_sum_counts)
  have "CalculateEntropy pc
        = - fold (\<lambda>c entropy. let p = real_of_int (snd c) / real_of_int S in
                    if p > 0 then entropy + p * log 2 p else entropy) pc 0"
    unfolding CalculateEntropy_def s by (simp only: Let_def)
  also have "\<dots> = - (0 + sum_list (map t pc))"
    unfolding t_def by (subst fold_entropy_terms) (rule refl)
  also have "sum_list (map t pc) = (\<Sum>q \<in> fst ` set pc. t (q, the (map_of pc q)))"
    using assms(1) by (rule sum_list_by_key)
  finally show ?thesis by (simp add: t_def cong: if_cong)
qed


lemma spec_tally_upto: "spec_tally ws n i = tally_upto ws n i (length ws)"
  by (simp add: spec_tally_def tally_upto_def fun_eq_iff)

lemma sum_spec_tally:
  assumes "n \<le> 8" "\<And>w. w \<in> set ws \<Longrightarrow> length w = n" "i < length ws"
  shows "(\<Sum>q | 0 < spec_tally ws n i q. spec_tally ws n i q) = length ws - 1"
proof -
  define S0 where "S0 = {j. j < length ws \<and> j \<noteq> i}"
  define g where "g = (\<lambda>j. case GeneratePattern (ws ! i) (ws ! j) n of Inr q \<Rightarrow> q | Inl e \<Rightarrow> 0)"
  have fin: "finite S0" by (simp add: S0_def)
  have gp: "GeneratePattern (ws ! i) (ws ! j) n = Inr (g j)" if "j \<in> S0" for j
  proof -
    have "length (ws ! i) = n" "length (ws ! j) = n" using assms(2,3) that by (simp_all add: S0_def)
    from GeneratePattern_greens[OF this assms(1)] show ?thesis by (auto simp: g_def)
  qed
  have tally: "spec_tally ws n i q = card {j \<in> S0. g j = q}" for q
  proof -
    have "{j. j < length ws \<and> j \<noteq> i \<and> GeneratePattern (ws ! i) (ws ! j) n = Inr q}
          = {j \<in> S0. g j = q}"
      using gp by (auto simp: S0_def)
    then show ?thesis by (simp add: spec_tally_def)
  qed
  have keys: "{q. 0 < spec_tally ws n i q} = g ` S0"
  proof -
    have "0 < card {j \<in> S0. g j = q} \<longleftrightarrow> q \<in> g ` S0" for q
      using fin by (auto simp: card_gt_0_iff)
    then show ?thesis by (simp add: tally)
  qed
  have "(\<Sum>q | 0 < spec_tally ws n i q. spec_tally ws n i q)
        = (\<Sum>q \<in> g ` S0. \<Sum>j \<in> {j \<in> S0. g j = q}. 1)"
    unfolding keys by (simp add: tally)
  also have "\<dots> = (\<Sum>j \<in> S0. 1)"
    using fin by (intro sum.group) auto
  also have "\<dots> = card S0" by simp
  also have "S0 = {..<length ws} - {i}" by (auto simp: S0_def)
  also have "card \<dots> = length ws - 1" using assms(3) by simp
  finally show ?thesis .
qed

lemma entropy_of_spec:
  assumes "n \<le> 8" "\<And>w. w \<in> set ws \<Longrightarrow> length w = n" "i < length ws"
  shows "entropy_of ws n i = spec_entropy ws n i"
proof -
  from count_patterns_counts[OF assms] obtain c where
    c: "count_patterns ws n i = Inr c" and inv: "counts_inv ws n i (length ws) c" by blast
  from inv have d: "distinct (map fst c)"
    and m: "\<And>q. map_of c q = (if 0 < spec_tally ws n i q
                               then Some (int (spec_tally ws n i q)) else None)"
    by (simp_all add: counts_inv_def spec_tally_upto)
  have keys: "fst ` set c = {q. 0 < spec_tally ws n i q}"
  proof -
    have "dom (map_of c) = {q. 0 < spec_tally ws n i q}"
      by (auto simp: dom_def m split: if_splits)
    then show ?thesis by (simp add: dom_map_of_conv_image_fst)
  qed
  have val: "the (map_of c q) = int (spec_tally ws n i q)" if "0 < spec_tally ws n i q" for q
    using m[of q] that by simp
  have S: "int (length ws - 1) = (\<Sum>q \<in> fst ` set c. the (map_of c q))"
  proof -
    have "(\<Sum>q \<in> fst ` set c. the (map_of c q)) = (\<Sum>q | 0 < spec_tally ws n i q. int (spec_tally ws n i q))"
      unfolding keys by (intro sum.cong) (simp_all add: val)
    also have "\<dots> = int (\<Sum>q | 0 < spec_tally ws n i q. spec_tally ws n i q)" by simp
    finally show ?thesis by (simp add: sum_spec_tally[OF assms])
  qed
  have pos: "0 < real (spec_tally ws n i q) / real (length ws - 1)" if "0 < spec_tally ws n i q" for q
  proof -
    have "finite {q. 0 < spec_tally ws n i q}" using keys[symmetric] by simp
    then have "spec_tally ws n i q \<le> (\<Sum>q | 0 < spec_tally ws n i q. spec_tally ws n i q)"
      using that by (intro member_le_sum) simp_all
    then have "0 < length ws - 1" using that sum_spec_tally[OF assms] by simp
    with that show ?thesis by simp
  qed
  have "entropy_of ws n i = CalculateEntropy c" using c by (simp add: entropy_of_def)
  also have "\<dots> = - (\<Sum>q \<in> fst ` set c.
         if real_of_int (the (map_of c q)) / real_of_int (int (length ws - 1)) > 0
         then real_of_int (the (map_of c q)) / real_of_int (int (length ws - 1)) *
              log 2 (real_of_int (the (map_of c q)) / real_of_int (int (length ws - 1)))
         else 0)"
    using d S by (rule CalculateEntropy_by_key)
  also have "\<dots> = spec_entropy ws n i"
    unfolding spec_entropy_def keys
    by (intro arg_cong[where f = uminus] sum.cong refl) (simp add: val pos del: One_nat_def)
  finally show ?thesis .
qed


lemma push_entropy_above_last:
  assumes "sorted_wrt key_less m" "m \<noteq> []" "CompareDouble (fst (last m)) k"
  shows "push_entropy k w m = m @ [(k, [w])]"
  using assms
proof (induction m)
  case Nil
  then show ?case by simp
next
  case (Cons x m)
  obtain k' ws where x: "x = (k', ws)" by (cases x)
  show ?case
  proof (cases "m = []")
    case True
    with Cons.prems x show ?thesis by simp
  next
    case False
    then have l: "last (x # m) = last m" by simp
    have "key_less x (last m)" using Cons.prems(1) False by simp
    then have "CompareDouble k' k"
      using Cons.prems(3) l x by (auto simp: key_less_def intro: CompareDouble_trans)
    moreover have "push_entropy k w m = m @ [(k, [w])]"
      using Cons.IH Cons.prems False l by simp
    ultimately show ?thesis by (simp add: x)
  qed
qed

lemma push_entropy_keeps_last:
  assumes "m \<noteq> []" "\<forall>x \<in> set m. snd x \<noteq> []" "\<not> CompareDouble (fst (last m)) k"
  shows "fst (last (push_entropy k w m)) = fst (last m) \<and>
         hd (snd (last (push_entropy k w m))) = hd (snd (last m))"
  using assms
proof (induction m)
  case Nil
  then show ?case by simp
next
  case (Cons x m)
  obtain k' ws where x: "x = (k', ws)" by (cases x)
  show ?case
  proof (cases "m = []")
    case True
    with Cons.prems x show ?thesis by auto
  next
    case False
    then have "push_entropy k w m \<noteq> []" by (simp add: push_entropy_nonempty)
    with False Cons show ?thesis by (auto simp: x)
  qed
qed

lemma groups_push_entropy:
  "\<forall>x \<in> set m. snd x \<noteq> [] \<Longrightarrow> \<forall>x \<in> set (push_entropy k w m). snd x \<noteq> []"
  by (induction k w m rule: push_entropy.induct) auto

lemma last_inv_step:
  assumes "last_inv tol H ws k m" and tol: "\<And>a b. CompareDouble a b \<longleftrightarrow> a + tol \<le> b"
  shows "last_inv tol H ws (Suc k) (push_entropy (H k) (ws ! k) m)"
proof (cases k)
  case 0
  with assms(1) have "m = []" by (simp add: last_inv_def)
  with 0 show ?thesis by (simp add: last_inv_def)
next
  case (Suc k')
  let ?b = "spec_choice tol H k'"
  from assms(1) Suc have s: "sorted_wrt key_less m" and g: "\<forall>x \<in> set m. snd x \<noteq> []"
    and ne: "m \<noteq> []" and key: "fst (last m) = H ?b" and hd: "hd (snd (last m)) = ws ! ?b"
    by (simp_all add: last_inv_def)
  have s': "sorted_wrt key_less (push_entropy (H k) (ws ! k) m)"
    using s by (rule sorted_push_entropy)
  have g': "\<forall>x \<in> set (push_entropy (H k) (ws ! k) m). snd x \<noteq> []"
    using g by (rule groups_push_entropy)
  have ne': "push_entropy (H k) (ws ! k) m \<noteq> []" by (rule push_entropy_nonempty)
  show ?thesis
  proof (cases "CompareDouble (H ?b) (H k)")
    case True
    then have "push_entropy (H k) (ws ! k) m = m @ [(H k, [ws ! k])]"
      using s ne key by (intro push_entropy_above_last) simp_all
    moreover have "spec_choice tol H k = k" using True Suc by (simp add: tol)
    ultimately show ?thesis using s' g' by (simp add: last_inv_def)
  next
    case False
    then have "fst (last (push_entropy (H k) (ws ! k) m)) = fst (last m) \<and>
               hd (snd (last (push_entropy (H k) (ws ! k) m))) = hd (snd (last m))"
      using ne g key by (intro push_entropy_keeps_last) simp_all
    moreover have "spec_choice tol H k = ?b" using False Suc by (simp add: tol)
    ultimately show ?thesis using s' g' ne' key hd by (simp add: last_inv_def)
  qed
qed

lemma spec_choice_le: "spec_choice tol H n \<le> n"
  by (induction n) (auto simp: le_Suc_eq)

lemma spec_choice_cong:
  "(\<And>j. j \<le> n \<Longrightarrow> H j = H' j) \<Longrightarrow> spec_choice tol H n = spec_choice tol H' n"
proof (induction n)
  case 0
  then show ?case by simp
next
  case (Suc n)
  then have "spec_choice tol H n = spec_choice tol H' n" by simp
  moreover have "H (spec_choice tol H' n) = H' (spec_choice tol H' n)"
    using Suc.prems[of "spec_choice tol H' n"] spec_choice_le[of tol H' n] by simp
  moreover have "H (Suc n) = H' (Suc n)" using Suc.prems by simp
  ultimately show ?case by simp
qed

lemma CalculateEntropies_last:
  assumes "n \<le> 8" "\<And>w. w \<in> set ws \<Longrightarrow> length w = n"
  shows "\<exists>m. CalculateEntropies ws n [] = Inr m \<and>
           last_inv (9671406556917035 / 2 ^ 83) (entropy_of ws n) ws (length ws) m"
  unfolding CalculateEntropies_def
proof (rule for_loop_upt_rule[where P = "last_inv (9671406556917035 / 2 ^ 83) (entropy_of ws n) ws"])
  show "last_inv (9671406556917035 / 2 ^ 83) (entropy_of ws n) ws 0 []"
    by (simp add: last_inv_def)
next
  fix i m assume i: "i < length ws"
    and inv: "last_inv (9671406556917035 / 2 ^ 83) (entropy_of ws n) ws i m"
  from count_patterns_Inr[OF assms i] obtain c where c: "count_patterns ws n i = Inr c" by blast
  then have "entropy_of ws n i = CalculateEntropy c" by (simp add: entropy_of_def)
  with last_inv_step[OF inv CompareDouble_iff] c
  show "\<exists>s'. (case count_patterns ws n i of Inl e \<Rightarrow> Inl e
               | Inr pCounters \<Rightarrow> Inr (push_entropy (CalculateEntropy pCounters) (ws ! i) m)) = Inr s'
             \<and> last_inv (9671406556917035 / 2 ^ 83) (entropy_of ws n) ws (Suc i) s'"
    by simp
qed simp

lemma table_last_max:
  assumes "table_inv ws n (length ws) m" "j < length ws"
  shows "\<not> CompareDouble (fst (last m)) (entropy_of ws n j)"
proof -
  from assms obtain x where x: "x \<in> set m" "\<not> CompareDouble (fst x) (entropy_of ws n j)"
    by (auto simp: table_inv_def)
  have "fst x \<le> fst (last m)"
    using assms(1) x(1) by (intro sorted_last_max) (simp_all add: table_inv_def)
  with x(2) show ?thesis by (rule CompareDouble_mono)
qed

lemma GetNextBestGuess_spec:
  assumes "n \<le> 8" "\<And>w. w \<in> set ws \<Longrightarrow> length w = n" "ws \<noteq> []"
  defines "best \<equiv> spec_choice (9671406556917035 / 2 ^ 83) (spec_entropy ws n) (length ws - 1)"
  shows "best < length ws"
    and "GetNextBestGuess n ws = Inr (ws ! best)"
    and "\<exists>m. CalculateEntropies ws n [] = Inr m \<and> m \<noteq> [] \<and> snd (last m) \<noteq> [] \<and>
             hd (snd (last m)) = ws ! best \<and> fst (last m) = spec_entropy ws n best"
    and "\<forall>j<length ws. spec_entropy ws n j < spec_entropy ws n best + 9671406556917035 / 2 ^ 83"
proof -
  have pos: "0 < length ws" using assms(3) by simp
  have b: "best = spec_choice (9671406556917035 / 2 ^ 83) (entropy_of ws n) (length ws - 1)"
    unfolding best_def
  proof (rule spec_choice_cong)
    fix j assume "j \<le> length ws - 1"
    then have "j < length ws" using pos by arith
    then show "spec_entropy ws n j = entropy_of ws n j"
      using entropy_of_spec[OF assms(1,2)] by simp
  qed
  have "best \<le> length ws - 1" unfolding best_def by (rule spec_choice_le)
  then show lt: "best < length ws" using pos by arith
  have "\<exists>m. CalculateEntropies ws n [] = Inr m \<and>
           last_inv (9671406556917035 / 2 ^ 83) (entropy_of ws n) ws (length ws) m"
    using assms(1,2) by (intro CalculateEntropies_last) auto
  then obtain m where
    m: "CalculateEntropies ws n [] = Inr m"
    and inv: "last_inv (9671406556917035 / 2 ^ 83) (entropy_of ws n) ws (length ws) m" by blast
  from inv pos b have ne: "m \<noteq> []" and g: "snd (last m) \<noteq> []"
    and key: "fst (last m) = entropy_of ws n best" and hd: "hd (snd (last m)) = ws ! best"
    by (simp_all add: last_inv_def)
  have key': "fst (last m) = spec_entropy ws n best"
    using key entropy_of_spec[OF assms(1,2) lt] by simp
  show "GetNextBestGuess n ws = Inr (ws ! best)"
    using m ne g hd by (cases "snd (last m)") (simp_all add: GetNextBestGuess_def)
  show "\<exists>m. CalculateEntropies ws n [] = Inr m \<and> m \<noteq> [] \<and> snd (last m) \<noteq> [] \<and>
             hd (snd (last m)) = ws ! best \<and> fst (last m) = spec_entropy ws n best"
    using m ne g hd key' by blast
  have "\<exists>m. CalculateEntropies ws n [] = Inr m \<and> table_inv ws n (length ws) m"
    using assms(1,2) by (intro CalculateEntropies_table) auto
  with m have t: "table_inv ws n (length ws) m" by simp
  show "\<forall>j<length ws. spec_entropy ws n j < spec_entropy ws n best + 9671406556917035 / 2 ^ 83"
  proof (intro allI impI)
    fix j assume j: "j < length ws"
    from table_last_max[OF t j] have "\<not> CompareDouble (spec_entropy ws n best) (spec_entropy ws n j)"
      using key' entropy_of_spec[OF assms(1,2) j] by simp
    then show "spec_entropy ws n j < spec_entropy ws n best + 9671406556917035 / 2 ^ 83"
      by (simp add: CompareDouble_iff)
  qed
qed


section \<open>The self-play loop\<close>

declare game_loop.simps [simp del]

lemma GetNextBestGuess_member:
  assumes "n \<le> 8" "\<And>w. w \<in> set ws \<Longrightarrow> length w = n" "ws \<noteq> []"
  shows "\<exists>w. GetNextBestGuess n ws = Inr w \<and> w \<in> set ws"
  using GetNextBestGuess_max[OF assms] by (metis nth_mem)

lemma game_post_cons:
  assumes "game_post n target (Suc guesses) vw' (res, rounds)" "guesses < n + 1"
    "round_ok n target this" "feedback this \<noteq> allGreen n" "candidates this = vw"
  shows "game_post n target guesses vw (res, this # rounds)"
proof -
  from assms(1) have
    l: "length rounds \<le> n + 1 - Suc guesses"
    and ok: "\<forall>rd \<in> set rounds. round_ok n target rd"
    and bl: "\<forall>rd \<in> set (butlast rounds). feedback rd \<noteq> allGreen n"
    and none: "res = None \<longrightarrow> length rounds = n + 1 - Suc guesses \<and>
                          (\<forall>rd \<in> set rounds. feedback rd \<noteq> allGreen n)"
    and some: "\<forall>w. res = Some w \<longrightarrow> w = target \<and> rounds \<noteq> [] \<and> guessed (last rounds) = w \<and>
                               feedback (last rounds) = allGreen n"
    by (simp_all add: game_post_def)
  have 1: "length (this # rounds) \<le> n + 1 - guesses" using l assms(2) by simp
  have 2: "\<forall>rd \<in> set (this # rounds). round_ok n target rd" using ok assms(3) by simp
  have 3: "\<forall>rd \<in> set (butlast (this # rounds)). feedback rd \<noteq> allGreen n"
    using bl assms(4) by simp
  have 4: "res = None \<longrightarrow> length (this # rounds) = n + 1 - guesses \<and>
                          (\<forall>rd \<in> set (this # rounds). feedback rd \<noteq> allGreen n)"
    using none assms(2,4) by auto
  have 5: "\<forall>w. res = Some w \<longrightarrow> w = target \<and> this # rounds \<noteq> [] \<and>
             guessed (last (this # rounds)) = w \<and> feedback (last (this # rounds)) = allGreen n"
    using some by auto
  show ?thesis
    unfolding game_post_def using 1 2 3 4 5 assms(5) by simp
qed

lemma game_loop_run:
  assumes "n \<le> 8" "length target = n" "\<And>w. w \<in> set vw \<Longrightarrow> length w = n" "target \<in> set vw"
    "guess \<noteq> target"
  shows "\<exists>out. game_loop n target guesses guess vw = Inr out \<and> game_post n target guesses vw out"
  using assms(3-5)
proof (induction "n + 1 - guesses" arbitrary: guesses guess vw)
  case 0
  then have "\<not> guesses < n + 1" by simp
  then have "game_loop n target guesses guess vw = Inr (None, [])"
    by (subst game_loop.simps) simp
  moreover have "game_post n target guesses vw (None, [])"
    using \<open>\<not> guesses < n + 1\<close> by (simp add: game_post_def)
  ultimately show ?case by blast
next
  case (Suc d)
  then have lt: "guesses < n + 1" by simp
  have ne: "vw \<noteq> []" using Suc.prems(2) by auto
  from GetNextBestGuess_member[OF assms(1) Suc.prems(1) ne] obtain g' where
    g': "GetNextBestGuess n vw = Inr g'" "g' \<in> set vw" by blast
  have lg: "length g' = n" using g'(2) Suc.prems(1) by simp
  from GeneratePattern_greens[OF lg assms(2,1)] obtain p where
    p: "GeneratePattern g' target n = Inr p" by blast
  define this where "this = \<lparr>candidates = vw, guessed = g', feedback = p\<rparr>"
  have ok: "round_ok n target this"
    using Suc.prems(1,2) g'(2) p by (simp add: round_ok_def this_def)
  show ?case
  proof (cases "p = allGreen n")
    case True
    with p have "g' = target"
      using GeneratePattern_allGreen_eq[OF lg assms(2,1)] by simp
    have "game_loop n target guesses guess vw = Inr (Some g', [this])"
      using lt Suc.prems(3) g'(1) p True by (subst game_loop.simps) (simp add: this_def)
    moreover have "game_post n target guesses vw (Some g', [this])"
      using ok True \<open>g' = target\<close> lt by (simp add: game_post_def this_def)
    ultimately show ?thesis by blast
  next
    case False
    have neq: "g' \<noteq> target"
      using False p GeneratePattern_self[OF assms(2,1)] by auto
    define vw' where "vw' = filter (\<lambda>w. GeneratePattern g' w n = Inr p) vw"
    have f: "FilterAllWordsBestOnPattern p g' vw n = Inr vw'"
      unfolding vw'_def using assms(1) lg Suc.prems(1)
      by (rule FilterAllWordsBestOnPattern_filter)
    have len': "\<And>w. w \<in> set vw' \<Longrightarrow> length w = n" using Suc.prems(1) by (simp add: vw'_def)
    have mem': "target \<in> set vw'" using Suc.prems(2) p by (simp add: vw'_def)
    have d: "d = n + 1 - Suc guesses" using Suc.hyps(2) by simp
    from Suc.hyps(1)[OF d len' mem' neq] obtain res rounds where
      out: "game_loop n target (Suc guesses) g' vw' = Inr (res, rounds)"
           "game_post n target (Suc guesses) vw' (res, rounds)"
      by (metis surj_pair)
    have "game_loop n target guesses guess vw = Inr (res, this # rounds)"
      using lt Suc.prems(3) g'(1) p False f out(1)
      by (subst game_loop.simps) (simp add: this_def)
    moreover have "game_post n target guesses vw (res, this # rounds)"
    proof (rule game_post_cons[OF out(2) lt ok])
      show "feedback this \<noteq> allGreen n" using False by (simp add: this_def)
      show "candidates this = vw" by (simp add: this_def)
    qed
    ultimately show ?thesis by blast
  qed
qed


section \<open>Claims about the codec and the feedback simulator\<close>

text \<open>
  C6. Writing a colour at a position of the word and reading the position back gives
  the colour written, and the write leaves the colour read at every other position of
  the word as it was. The positions of a word are \<open>0..wordSize-1\<close> for a word size up
  to 8; the colour may be any value of the enumeration.
\<close>

theorem SetColor_GetColor_roundtrip:
  assumes "wordSize \<le> 8" "0 \<le> pos" "pos < int wordSize"
  shows "\<exists>p'. SetColor pattern pos c = Inr p' \<and> GetColor p' pos = Inr c \<and>
           (\<forall>q. 0 \<le> q \<and> q < int wordSize \<and> q \<noteq> pos \<longrightarrow> GetColor p' q = GetColor pattern q)"
proof -
  have rng: "0 \<le> pos" "pos \<le> 7" using assms by simp_all
  obtain p' where p': "SetColor pattern pos c = Inr p'"
    using SetColor_Inr[OF rng] by blast
  have same: "GetColor p' pos = Inr c"
    using GetColor_field[OF rng, of p'] field_SetColor_same[OF rng p']
    by (simp add: to_Color_code)
  have other: "GetColor p' q = GetColor pattern q"
    if q: "0 \<le> q \<and> q < int wordSize \<and> q \<noteq> pos" for q
  proof -
    have qr: "0 \<le> q" "q \<le> 7" using q assms(1) by simp_all
    have "nat q \<noteq> nat pos" using q rng by arith
    then have "field p' (nat q) = field pattern (nat q)"
      by (rule field_SetColor_other[OF rng p'])
    then show ?thesis
      by (simp add: GetColor_field[OF qr])
  qed
  from p' same other show ?thesis by blast
qed

theorem SetColor_GetColor_roundtrip_witness:
  "SetColor 682 2 Yellow = Inr 666 \<and> GetColor 666 2 = Inr Yellow \<and>
   GetColor 666 4 = GetColor 682 4"
proof -
  have h: "(5::nat) \<le> 8" "(0::int) \<le> 2" "(2::int) < int 5" by simp_all
  from SetColor_GetColor_roundtrip[OF h, of 682 Yellow] obtain p' where
    p': "SetColor 682 2 Yellow = Inr p'" "GetColor p' 2 = Inr Yellow"
        "\<forall>q. 0 \<le> q \<and> q < int 5 \<and> q \<noteq> 2 \<longrightarrow> GetColor p' q = GetColor 682 q"
    by blast
  have "SetColor 682 2 Yellow = Inr 666" by (simp add: SetColor_def)
  with p'(1) have "p' = 666" by simp
  with p' show ?thesis by simp
qed

text \<open>
  C1, as stated, fails. For the guess MAMBO against AMAZE no letter is Green: the
  pattern returned is \<open>0b0101000000 = 320\<close>, in which neither M nor the A is Green.
  For APPLE against PLATE the pattern is \<open>0b0101000110 = 326\<close>, in which the leading
  A is not Gray.
\<close>

theorem GeneratePattern_duplicates_counterexample:
  "GeneratePattern ''MAMBO'' ''AMAZE'' 5 = Inr 320 \<and>
   GetColor 320 (position 5 0) \<noteq> Inr Green \<and>
   GetColor 320 (position 5 1) \<noteq> Inr Green \<and>
   GetColor 320 (position 5 2) \<noteq> Inr Green \<and>
   GeneratePattern ''APPLE'' ''PLATE'' 5 = Inr 326 \<and>
   GetColor 326 (position 5 0) \<noteq> Inr Gray"
  by code_simp

text \<open>
  C1, amended. \<open>GeneratePattern("MAMBO", "AMAZE", 5)\<close> returns \<open>0b0101000000\<close>: the first
  M and the A are Yellow, the second M, the B and the O are Gray.
  \<open>GeneratePattern("APPLE", "PLATE", 5)\<close> returns \<open>0b0101000110\<close>: the A, the first P
  and the L are Yellow, the second P is Gray and the E is Green. The colour of letter
  \<open>i\<close> is the one read by \<open>GetColor\<close> at the field \<open>wordSize - 1 - i\<close>.
\<close>

theorem GeneratePattern_duplicates:
  "GeneratePattern ''MAMBO'' ''AMAZE'' 5 = Inr 320 \<and>
   GetColor 320 (position 5 0) = Inr Yellow \<and>
   GetColor 320 (position 5 1) = Inr Yellow \<and>
   GetColor 320 (position 5 2) = Inr Gray \<and>
   GetColor 320 (position 5 3) = Inr Gray \<and>
   GetColor 320 (position 5 4) = Inr Gray \<and>
   GeneratePattern ''APPLE'' ''PLATE'' 5 = Inr 326 \<and>
   GetColor 326 (position 5 0) = Inr Yellow \<and>
   GetColor 326 (position 5 1) = Inr Yellow \<and>
   GetColor 326 (position 5 2) = Inr Gray \<and>
   GetColor 326 (position 5 3) = Inr Yellow \<and>
   GetColor 326 (position 5 4) = Inr Green"
  by code_simp

text \<open>
  C7. For every word \<open>w\<close> of length \<open>wordSize\<close> (at most 8, the largest word size the
  program admits), \<open>GeneratePattern w w wordSize\<close> returns the all-Green pattern, which
  reads Green at each of the \<open>wordSize\<close> positions and is zero above them.
\<close>

theorem GeneratePattern_self_match:
  assumes "length w = wordSize" "wordSize \<le> 8"
  shows "GeneratePattern w w wordSize = Inr (allGreen wordSize) \<and>
         (\<forall>j<wordSize. GetColor (allGreen wordSize) (int j) = Inr Green) \<and>
         drop_bit (2 * wordSize) (allGreen wordSize) = 0"
  using GeneratePattern_self[OF assms] GetColor_allGreen[OF _ assms(2)]
    allGreen_high_zero[of wordSize] by simp

theorem GeneratePattern_self_match_witness:
  "GeneratePattern ''CRANE'' ''CRANE'' 5 = Inr 682 \<and> allGreen 5 = 682"
proof -
  have h: "length ''CRANE'' = 5" "(5::nat) \<le> 8" by simp_all
  have "allGreen 5 = 682" by code_simp
  with GeneratePattern_self_match[OF h] show ?thesis by simp
qed

text \<open>
  C9. For a guess and a target both of length \<open>wordSize\<close> (at most 8), the feedback is
  the all-Green pattern only if the guess is the target. The win test of self-play
  compares the feedback of the round's guess against the hidden word with the all-Green
  pattern, so it succeeds only for the hidden word; so does the test of interactive
  play when the feedback entered is the one of the guess against the player's word.
\<close>

theorem allGreen_only_for_target:
  assumes "length g = wordSize" "length t = wordSize" "wordSize \<le> 8"
    and "GeneratePattern g t wordSize = Inr (allGreen wordSize)"
  shows "g = t"
  using assms by (rule GeneratePattern_allGreen_eq)

theorem allGreen_only_for_target_witness:
  "GeneratePattern ''CRANE'' ''CRANE'' 5 = Inr (allGreen 5) \<and> ''CRANE'' = ''CRANE''"
proof -
  have h: "length ''CRANE'' = 5" "(5::nat) \<le> 8" by simp_all
  have g: "GeneratePattern ''CRANE'' ''CRANE'' 5 = Inr (allGreen 5)" by code_simp
  from allGreen_only_for_target[OF h(1) h(1) h(2) g] g show ?thesis by simp
qed

text \<open>
  C2. For a guess and candidates of length \<open>wordSize\<close> (at most 8), the filter returns
  the candidate list restricted to the words \<open>w\<close> with
  \<open>GeneratePattern guess w wordSize = p\<close>: every such word and no other, in the order
  of the candidate list. The list passed in is a value of the model, as it is a const
  reference in the source.
\<close>

theorem FilterAllWordsBestOnPattern_exact:
  assumes "wordSize \<le> 8" "length guess = wordSize" "\<forall>w \<in> set validWords. length w = wordSize"
  shows "FilterAllWordsBestOnPattern p guess validWords wordSize =
         Inr (filter (\<lambda>w. GeneratePattern guess w wordSize = Inr p) validWords)"
  using assms by (intro FilterAllWordsBestOnPattern_filter) auto

theorem FilterAllWordsBestOnPattern_exact_witness:
  "FilterAllWordsBestOnPattern 0 ''crane'' [''crane'', ''light'', ''lithe''] 5 = Inr [''light'']"
proof -
  have h: "(5::nat) \<le> 8" "length ''crane'' = 5"
    "\<forall>w \<in> set [''crane'', ''light'', ''lithe'']. length w = 5" by simp_all
  have "filter (\<lambda>w. GeneratePattern ''crane'' w 5 = Inr 0) [''crane'', ''light'', ''lithe'']
        = [''light'']" by code_simp
  with FilterAllWordsBestOnPattern_exact[OF h, of 0] show ?thesis by simp
qed

section \<open>Claims about the entropy ranker\<close>

lemma log2_half: "log 2 (1 / 2) = -1"
  by (simp add: log_divide)

lemma log2_quarter: "log 2 (1 / 4) = -2"
proof -
  have "log 2 (1 / 4) = - log 2 (2 ^ 2)" by (simp add: log_divide)
  also have "log 2 (2 ^ 2) = 2" by (subst log_nat_power) simp_all
  finally show ?thesis by simp
qed

lemma CalculateEntropy_single:
  assumes "0 < n"
  shows "CalculateEntropy [(a, n)] = 0"
  using assms by (simp add: CalculateEntropy_def)

lemma CalculateEntropy_two:
  assumes "0 < n"
  shows "CalculateEntropy [(a, n), (b, n)] = 1"
proof -
  have "real_of_int n / real_of_int (n + n) = 1 / 2"
    using assms by (simp add: field_simps)
  with assms show ?thesis
    by (simp add: CalculateEntropy_def log2_half)
qed

lemma CalculateEntropy_four:
  assumes "0 < n"
  shows "CalculateEntropy [(a, n), (b, n), (c, n), (d, n)] = 2"
proof -
  have "real_of_int n / real_of_int (n + n + n + n) = 1 / 4"
    using assms by (simp add: field_simps)
  with assms show ?thesis
    by (simp add: CalculateEntropy_def log2_quarter)
qed

text \<open>
  C8. The entropy computed for a distribution with a single pattern is exactly 0; for
  two patterns with the same count it is within \<open>1e-6\<close> of 1; for four patterns with the
  same count it is within \<open>1e-6\<close> of 2. The count \<open>n\<close> is positive and small enough for
  the \<^verbatim>\<open>int\<close> sum of the source not to overflow. The entropy is the real-valued one of
  the model; in these three distributions every probability is 1, 1/2 or 1/4.
\<close>

theorem CalculateEntropy_uniform:
  assumes "0 < n" "4 * n < 2 ^ 31"
  shows "CalculateEntropy [(a, n)] = 0 \<and>
         \<bar>CalculateEntropy [(a, n), (b, n)] - 1\<bar> < 1 / 10 ^ 6 \<and>
         \<bar>CalculateEntropy [(a, n), (b, n), (c, n), (d, n)] - 2\<bar> < 1 / 10 ^ 6"
  using CalculateEntropy_single[OF assms(1)] CalculateEntropy_two[OF assms(1)]
    CalculateEntropy_four[OF assms(1)] by simp

theorem CalculateEntropy_uniform_witness:
  "CalculateEntropy [(242, 25)] = 0 \<and>
   \<bar>CalculateEntropy [(242, 25), (0, 25)] - 1\<bar> < 1 / 10 ^ 6 \<and>
   \<bar>CalculateEntropy [(242, 25), (0, 25), (27, 25), (81, 25)] - 2\<bar> < 1 / 10 ^ 6"
proof -
  have h: "(0::int) < 25" "4 * (25::int) < 2 ^ 31" by simp_all
  show ?thesis by (rule CalculateEntropy_uniform[OF h])
qed

text \<open>
  C4. For a non-empty candidate list of words of length \<open>wordSize\<close> (at most 8),
  \<open>GetNextBestGuess\<close> returns the candidate \<open>best\<close> that the specification's ranking
  chooses: with \<open>H i\<close> the Shannon entropy of the distribution of the patterns of
  candidate \<open>i\<close> against all the other candidates, the first candidate is chosen and a
  later candidate replaces the choice only if its entropy is at least the tolerance
  above the entropy of the choice, so that among entropies within the tolerance the
  word inserted first wins. The tolerance is that of \<open>CompareDouble\<close> on doubles,
  \<open>9671406556917035 / 2 ^ 83\<close>: the double \<open>1e-9\<close> plus half its unit in the last place,
  from where on the rounded difference falls below \<open>-EPSILON\<close>. The word returned is
  the first word of the last entry of the entropy table, the key of that entry is
  its entropy, and the entropy of every candidate is less than that entropy plus the
  tolerance. A list of one candidate yields that candidate. The entropies are the real
  numbers of the model.
\<close>

theorem GetNextBestGuess_maximal:
  assumes "validWords \<noteq> []" "wordSize \<le> 8" "\<forall>w \<in> set validWords. length w = wordSize"
  shows "\<exists>best entropies.
           best = spec_choice (9671406556917035 / 2 ^ 83) (spec_entropy validWords wordSize)
                    (length validWords - 1) \<and>
           best < length validWords \<and>
           GetNextBestGuess wordSize validWords = Inr (validWords ! best) \<and>
           CalculateEntropies validWords wordSize [] = Inr entropies \<and> entropies \<noteq> [] \<and>
           snd (last entropies) \<noteq> [] \<and> hd (snd (last entropies)) = validWords ! best \<and>
           fst (last entropies) = spec_entropy validWords wordSize best \<and>
           (\<forall>j<length validWords.
              spec_entropy validWords wordSize j
                < spec_entropy validWords wordSize best + 9671406556917035 / 2 ^ 83) \<and>
           (length validWords = 1 \<longrightarrow>
              GetNextBestGuess wordSize validWords = Inr (validWords ! 0))"
proof -
  have len: "\<And>w. w \<in> set validWords \<Longrightarrow> length w = wordSize" using assms(3) by simp
  define best where "best = spec_choice (9671406556917035 / 2 ^ 83)
      (spec_entropy validWords wordSize) (length validWords - 1)"
  note spec = GetNextBestGuess_spec[OF assms(2) len assms(1), folded best_def]
  from spec(3) obtain m where
    m: "CalculateEntropies validWords wordSize [] = Inr m" "m \<noteq> []" "snd (last m) \<noteq> []"
       "hd (snd (last m)) = validWords ! best" "fst (last m) = spec_entropy validWords wordSize best"
    by blast
  have one: "length validWords = 1 \<longrightarrow>
               GetNextBestGuess wordSize validWords = Inr (validWords ! 0)"
    using spec(1,2) by auto
  from best_def spec(1,2,4) m one show ?thesis by blast
qed

lemma count_patterns_zzz:
  "count_patterns [''zzz'', ''abc'', ''abd''] 3 0 = Inr [(0, 2)]"
  "count_patterns [''zzz'', ''abc'', ''abd''] 3 (Suc 0) = Inr [(0, 1), (40, 1)]"
  "count_patterns [''zzz'', ''abc'', ''abd''] 3 (Suc (Suc 0)) = Inr [(0, 1), (40, 1)]"
  by code_simp+

lemma spec_entropy_zzz:
  "spec_entropy [''zzz'', ''abc'', ''abd''] 3 0 = 0"
  "spec_entropy [''zzz'', ''abc'', ''abd''] 3 (Suc 0) = 1"
  "spec_entropy [''zzz'', ''abc'', ''abd''] 3 (Suc (Suc 0)) = 1"
proof -
  have eq: "spec_entropy [''zzz'', ''abc'', ''abd''] 3 i = entropy_of [''zzz'', ''abc'', ''abd''] 3 i"
    if "i < 3" for i
    using that by (intro entropy_of_spec[symmetric]) auto
  have "spec_entropy [''zzz'', ''abc'', ''abd''] 3 0 = CalculateEntropy [(0, 2)]"
    by (simp add: eq entropy_of_def count_patterns_zzz)
  then show "spec_entropy [''zzz'', ''abc'', ''abd''] 3 0 = 0"
    by (simp add: CalculateEntropy_single)
  have "spec_entropy [''zzz'', ''abc'', ''abd''] 3 (Suc 0) = CalculateEntropy [(0, 1), (40, 1)]"
    by (simp add: eq entropy_of_def count_patterns_zzz)
  then show "spec_entropy [''zzz'', ''abc'', ''abd''] 3 (Suc 0) = 1"
    by (simp add: CalculateEntropy_two)
  have "spec_entropy [''zzz'', ''abc'', ''abd''] 3 (Suc (Suc 0)) = CalculateEntropy [(0, 1), (40, 1)]"
    by (simp add: eq entropy_of_def count_patterns_zzz)
  then show "spec_entropy [''zzz'', ''abc'', ''abd''] 3 (Suc (Suc 0)) = 1"
    by (simp add: CalculateEntropy_two)
qed

theorem GetNextBestGuess_maximal_witness:
  "GetNextBestGuess 3 [''zzz'', ''abc'', ''abd''] = Inr ''abc'' \<and>
   spec_entropy [''zzz'', ''abc'', ''abd''] 3 0 = 0 \<and>
   spec_entropy [''zzz'', ''abc'', ''abd''] 3 1 = 1 \<and>
   spec_entropy [''zzz'', ''abc'', ''abd''] 3 2 = 1"
proof -
  have h: "[''zzz'', ''abc'', ''abd''] \<noteq> []" "(3::nat) \<le> 8"
    "\<forall>w \<in> set [''zzz'', ''abc'', ''abd'']. length w = 3" by simp_all
  define T where "T = (9671406556917035 / 2 ^ 83 :: real)"
  define H where "H = spec_entropy [''zzz'', ''abc'', ''abd''] 3"
  have T: "0 < T" "T \<le> 1" by (simp_all add: T_def)
  have e: "H 0 = 0" "H (Suc 0) = 1" "H (Suc (Suc 0)) = 1"
    by (simp_all add: H_def spec_entropy_zzz)
  have c1: "spec_choice T H (Suc 0) = Suc 0" using T by (simp add: e)
  have c2: "spec_choice T H (Suc (Suc 0)) = Suc 0"
    using T by (subst spec_choice.simps(2)) (simp add: c1 e del: spec_choice.simps)
  have l: "length [''zzz'', ''abc'', ''abd''] - 1 = Suc (Suc 0)" by simp
  from GetNextBestGuess_maximal[OF h] have
    "GetNextBestGuess 3 [''zzz'', ''abc'', ''abd''] = Inr ([''zzz'', ''abc'', ''abd''] ! Suc 0)"
    unfolding l T_def[symmetric] H_def[symmetric] c2 by blast
  then show ?thesis by (simp add: spec_entropy_zzz numeral_2_eq_2)
qed

section \<open>Claims about self-play\<close>

lemma PlayRandomGame_run:
  assumes "r < length dictionary" "1 \<le> wordSize" "wordSize \<le> 8"
    "\<forall>w \<in> set dictionary. length w = wordSize"
  shows "\<exists>res rounds. PlayRandomGame_rounds wordSize dictionary r = Inr (res, rounds) \<and>
           game_post wordSize (dictionary ! r) 0 dictionary (res, rounds)"
proof -
  have len: "\<And>w. w \<in> set dictionary \<Longrightarrow> length w = wordSize" using assms(4) by simp
  have mem: "dictionary ! r \<in> set dictionary" using assms(1) by simp
  have lt: "length (dictionary ! r) = wordSize" using mem len by simp
  have ne: "[] \<noteq> dictionary ! r" using lt assms(2) by auto
  from game_loop_run[OF assms(3) lt len mem ne, of 0] assms(1) show ?thesis
    by (auto simp: PlayRandomGame_rounds_def)
qed

text \<open>
  C3. For a dictionary of words of length \<open>wordSize\<close> (from 1 to 8) and a target drawn
  from it at index \<open>r\<close>, self-play returns after at most \<open>wordSize + 1\<close> rounds. It
  returns a word exactly when the feedback of its last round is all-Green, and that word
  is the guess of the last round and equals the target; no earlier round has all-Green
  feedback. It returns no value exactly when no round has all-Green feedback, and then
  \<open>wordSize + 1\<close> rounds were played. The feedback of each round is the pattern of its
  guess against the target.
\<close>

theorem PlayRandomGame_terminates:
  assumes "r < length dictionary" "1 \<le> wordSize" "wordSize \<le> 8"
    "\<forall>w \<in> set dictionary. length w = wordSize"
  shows "\<exists>res rounds.
           PlayRandomGame_rounds wordSize dictionary r = Inr (res, rounds) \<and>
           PlayRandomGame wordSize dictionary r = Inr res \<and>
           rounds \<noteq> [] \<and> length rounds \<le> wordSize + 1 \<and>
           (\<forall>rd \<in> set rounds.
              GeneratePattern (guessed rd) (dictionary ! r) wordSize = Inr (feedback rd)) \<and>
           (\<forall>rd \<in> set (butlast rounds). feedback rd \<noteq> allGreen wordSize) \<and>
           (res = None \<longrightarrow> length rounds = wordSize + 1 \<and>
                             feedback (last rounds) \<noteq> allGreen wordSize) \<and>
           (\<forall>w. res = Some w \<longrightarrow> w = dictionary ! r \<and> guessed (last rounds) = w \<and>
                                  feedback (last rounds) = allGreen wordSize)"
proof -
  from PlayRandomGame_run[OF assms] obtain res rounds where
    run: "PlayRandomGame_rounds wordSize dictionary r = Inr (res, rounds)"
    and post: "game_post wordSize (dictionary ! r) 0 dictionary (res, rounds)"
    by blast
  have res: "PlayRandomGame wordSize dictionary r = Inr res"
    using run by (simp add: PlayRandomGame_def)
  from post have ne: "rounds \<noteq> []" and l: "length rounds \<le> wordSize + 1"
    and fb: "\<forall>rd \<in> set rounds.
               GeneratePattern (guessed rd) (dictionary ! r) wordSize = Inr (feedback rd)"
    and bl: "\<forall>rd \<in> set (butlast rounds). feedback rd \<noteq> allGreen wordSize"
    and none: "res = None \<longrightarrow> length rounds = wordSize + 1 \<and>
                             (\<forall>rd \<in> set rounds. feedback rd \<noteq> allGreen wordSize)"
    and some: "\<forall>w. res = Some w \<longrightarrow> w = dictionary ! r \<and> guessed (last rounds) = w \<and>
                                  feedback (last rounds) = allGreen wordSize"
    by (simp_all add: game_post_def round_ok_def)
  from none ne have none': "res = None \<longrightarrow> length rounds = wordSize + 1 \<and>
                             feedback (last rounds) \<noteq> allGreen wordSize"
    by simp
  from run res ne l fb bl none' some show ?thesis by blast
qed

theorem PlayRandomGame_terminates_witness:
  "\<exists>res rounds.
     PlayRandomGame 5 [''crane'', ''light''] 1 = Inr res \<and>
     PlayRandomGame_rounds 5 [''crane'', ''light''] 1 = Inr (res, rounds) \<and>
     length rounds \<le> 6 \<and>
     (res = None \<longrightarrow> length rounds = 6) \<and>
     (\<forall>w. res = Some w \<longrightarrow> w = ''light'')"
proof -
  have h: "1 < length [''crane'', ''light'']" "(1::nat) \<le> 5" "(5::nat) \<le> 8"
    "\<forall>w \<in> set [''crane'', ''light'']. length w = 5" by simp_all
  from PlayRandomGame_terminates[OF h] show ?thesis by fastforce
qed

text \<open>
  C10. In self-play over a dictionary of words of length \<open>wordSize\<close> (from 1 to 8) with
  the target drawn at index \<open>r\<close>: the candidate list of the first round is the
  dictionary; the target is in the candidate list at the start of every round; the
  feedback of every round is the pattern of its guess against the target; and in every
  round that is not won the filter returns a list that contains the target.
\<close>

theorem target_stays_candidate:
  assumes "r < length dictionary" "1 \<le> wordSize" "wordSize \<le> 8"
    "\<forall>w \<in> set dictionary. length w = wordSize"
  shows "\<exists>res rounds.
           PlayRandomGame_rounds wordSize dictionary r = Inr (res, rounds) \<and>
           rounds \<noteq> [] \<and> candidates (hd rounds) = dictionary \<and>
           dictionary ! r \<in> set dictionary \<and>
           (\<forall>rd \<in> set rounds.
              dictionary ! r \<in> set (candidates rd) \<and>
              GeneratePattern (guessed rd) (dictionary ! r) wordSize = Inr (feedback rd) \<and>
              (feedback rd \<noteq> allGreen wordSize \<longrightarrow>
                 (\<exists>validWords'.
                    FilterAllWordsBestOnPattern (feedback rd) (guessed rd) (candidates rd) wordSize
                      = Inr validWords' \<and>
                    dictionary ! r \<in> set validWords')))"
proof -
  from PlayRandomGame_run[OF assms] obtain res rounds where
    run: "PlayRandomGame_rounds wordSize dictionary r = Inr (res, rounds)"
    and post: "game_post wordSize (dictionary ! r) 0 dictionary (res, rounds)"
    by blast
  from post have first: "rounds \<noteq> []" "candidates (hd rounds) = dictionary"
    and ok: "\<forall>rd \<in> set rounds. round_ok wordSize (dictionary ! r) rd"
    by (simp_all add: game_post_def)
  have mem: "dictionary ! r \<in> set dictionary" using assms(1) by simp
  have each: "dictionary ! r \<in> set (candidates rd) \<and>
              GeneratePattern (guessed rd) (dictionary ! r) wordSize = Inr (feedback rd) \<and>
              (feedback rd \<noteq> allGreen wordSize \<longrightarrow>
                 (\<exists>validWords'.
                    FilterAllWordsBestOnPattern (feedback rd) (guessed rd) (candidates rd) wordSize
                      = Inr validWords' \<and>
                    dictionary ! r \<in> set validWords'))"
    if "rd \<in> set rounds" for rd
  proof -
    from ok that have rd: "dictionary ! r \<in> set (candidates rd)"
      "\<And>w. w \<in> set (candidates rd) \<Longrightarrow> length w = wordSize"
      "guessed rd \<in> set (candidates rd)"
      "GeneratePattern (guessed rd) (dictionary ! r) wordSize = Inr (feedback rd)"
      by (simp_all add: round_ok_def)
    have lg: "length (guessed rd) = wordSize" using rd(2,3) by simp
    have "FilterAllWordsBestOnPattern (feedback rd) (guessed rd) (candidates rd) wordSize
          = Inr (filter (\<lambda>w. GeneratePattern (guessed rd) w wordSize = Inr (feedback rd))
                   (candidates rd))"
      using assms(3) lg rd(2) by (rule FilterAllWordsBestOnPattern_filter)
    moreover have "dictionary ! r \<in>
        set (filter (\<lambda>w. GeneratePattern (guessed rd) w wordSize = Inr (feedback rd))
               (candidates rd))"
      using rd(1,4) by simp
    ultimately show ?thesis using rd(1,4) by blast
  qed
  from run first mem each show ?thesis by blast
qed

theorem target_stays_candidate_witness:
  "\<exists>res rounds.
     PlayRandomGame_rounds 5 [''crane'', ''light''] 1 = Inr (res, rounds) \<and>
     rounds \<noteq> [] \<and> candidates (hd rounds) = [''crane'', ''light''] \<and>
     (\<forall>rd \<in> set rounds. ''light'' \<in> set (candidates rd))"
proof -
  have h: "1 < length [''crane'', ''light'']" "(1::nat) \<le> 5" "(5::nat) \<le> 8"
    "\<forall>w \<in> set [''crane'', ''light'']. length w = 5" by simp_all
  from target_stays_candidate[OF h] show ?thesis by fastforce
qed

section \<open>Claims about interactive play\<close>

lemma promptPatterns_abort:
  assumes "i + length toks < wordSize" "\<forall>t \<in> set toks. t = ''gn'' \<or> t = ''y'' \<or> t = ''gr''"
    "q = ''quit'' \<or> q = ''remove''"
  shows "promptPatterns wordSize i pats (toks @ q # rest) = Some (pats @ toks, rest)"
  using assms(1,2)
proof (induction toks arbitrary: i pats)
  case Nil
  then show ?case
    using assms(3) by (subst promptPatterns.simps) (auto simp: getline_def)
next
  case (Cons t toks)
  from Cons.prems have t: "t = ''gn'' \<or> t = ''y'' \<or> t = ''gr''" and i: "i < wordSize"
    by simp_all
  have "promptPatterns wordSize i pats ((t # toks) @ q # rest)
        = promptPatterns wordSize (i + 1) (pats @ [t]) (toks @ q # rest)"
    using t i by (subst promptPatterns.simps) (auto simp: getline_def)
  also have "\<dots> = Some ((pats @ [t]) @ toks, rest)"
    using Cons.prems by (intro Cons.IH) simp_all
  finally show ?case by simp
qed

lemma buildPattern_one_Gray: "buildPattern 5 [''gr''] = Inr 0"
  by code_simp

lemma allGreen_5: "allGreen 5 = 682"
  by code_simp

lemma filter_crane_all_Gray:
  "FilterAllWordsBestOnPattern 0 ''crane'' [''crane'', ''light''] 5 = Inr [''light'']"
  by code_simp

lemma GetNextBestGuess_single: "GetNextBestGuess n [w] = Inr w"
  by (simp add: GetNextBestGuess_def CalculateEntropies_def count_patterns_def)

lemma iteration_partial_feedback:
  "offline_iteration 5 [''crane'', ''light''] [] [''word'', ''crane'', ''gr'', ''quit'', ''quit'']
   = Some (Inr (None, [''light''], ''light'', [''quit'']))"
proof -
  have "promptPatterns 5 0 [] ([''gr''] @ ''quit'' # [''quit'']) = Some ([] @ [''gr''], [''quit''])"
    by (rule promptPatterns_abort) simp_all
  then show ?thesis
    by (simp add: offline_iteration_def run_command_def getline_def buildPattern_one_Gray
        allGreen_5 filter_crane_all_Gray GetNextBestGuess_single)
qed

lemma iteration_no_feedback:
  "offline_iteration 5 [''crane'', ''light''] [] [''word'', ''crane'', ''quit'', ''quit'']
   = Some (Inr (None, [''crane'', ''light''], ''crane'', [''quit'']))"
proof -
  have "promptPatterns 5 0 [] ([] @ ''quit'' # [''quit'']) = Some ([] @ [], [''quit''])"
    by (rule promptPatterns_abort) simp_all
  then show ?thesis
    by (simp add: offline_iteration_def run_command_def getline_def)
qed

lemma iteration_quit:
  "offline_iteration 5 validWords lastGuess [''quit'']
   = Some (Inr (Some Quit, validWords, lastGuess, []))"
  by (simp add: offline_iteration_def run_command_def getline_def)

text \<open>
  C5 does not hold of the code once a feedback token has been entered. With word size
  5 and the candidates crane and light, the input \<open>word, crane, gr, quit, quit\<close> sets
  the working guess to crane, enters Gray for the first letter and then \<open>quit\<close> during
  the collection. The collection is left with the one token; the pattern built from it
  is all Gray; the candidate list is filtered with it, which drops crane, and the next
  guess is computed, before the next command (the second \<open>quit\<close>) is read. When
  \<open>quit\<close> comes before any token (\<open>word, crane, quit, quit\<close>) the candidate list is left
  as it is.
\<close>

theorem PlayOffLineGame_partial_feedback:
  "offline_iteration 5 [''crane'', ''light''] [] [''word'', ''crane'', ''gr'', ''quit'', ''quit'']
     = Some (Inr (None, [''light''], ''light'', [''quit''])) \<and>
   PlayOffLineGame 5 [''crane'', ''light''] [''word'', ''crane'', ''gr'', ''quit'', ''quit'']
     = Some (Inr (Quit, [''light''], ''light'', [])) \<and>
   PlayOffLineGame 5 [''crane'', ''light''] [''word'', ''crane'', ''quit'', ''quit'']
     = Some (Inr (Quit, [''crane'', ''light''], ''crane'', []))"
proof -
  have "offline_loop 5 [''crane'', ''light''] [] [''word'', ''crane'', ''gr'', ''quit'', ''quit'']
        = offline_loop 5 [''light''] ''light'' [''quit'']"
    by (subst offline_loop.simps) (simp add: iteration_partial_feedback)
  also have "\<dots> = Some (Inr (Quit, [''light''], ''light'', []))"
    by (subst offline_loop.simps) (simp add: iteration_quit)
  finally have 1: "PlayOffLineGame 5 [''crane'', ''light'']
      [''word'', ''crane'', ''gr'', ''quit'', ''quit''] = Some (Inr (Quit, [''light''], ''light'', []))"
    by (simp add: PlayOffLineGame_def)
  have "offline_loop 5 [''crane'', ''light''] [] [''word'', ''crane'', ''quit'', ''quit'']
        = offline_loop 5 [''crane'', ''light''] ''crane'' [''quit'']"
    by (subst offline_loop.simps) (simp add: iteration_no_feedback)
  also have "\<dots> = Some (Inr (Quit, [''crane'', ''light''], ''crane'', []))"
    by (subst offline_loop.simps) (simp add: iteration_quit)
  finally have 2: "PlayOffLineGame 5 [''crane'', ''light'']
      [''word'', ''crane'', ''quit'', ''quit''] = Some (Inr (Quit, [''crane'', ''light''], ''crane'', []))"
    by (simp add: PlayOffLineGame_def)
  from iteration_partial_feedback 1 2 show ?thesis by simp
qed

end
